theory Spec2Isabelle
  imports Complex_Main "HOL-Library.AList"
begin

section \<open>Text handling of \<open>services/vector_service.py\<close>\<close>

text \<open>
  A Python \<open>str\<close> is modelled as a \<open>string\<close>: a list of code points below 256.
  The character classes below are the ones Python's \<open>str.isspace\<close>, \<open>str.strip\<close>
  and the \<open>re\<close> module (\<open>\s\<close>, \<open>\w\<close>, \<open>\b\<close> on \<open>str\<close> patterns) use on that range.
\<close>

definition py_isspace :: "char \<Rightarrow> bool" where
  "py_isspace c = ((of_char c :: nat) \<in> {9, 10, 11, 12, 13, 28, 29, 30, 31, 32, 133, 160})"

definition is_upper :: "char \<Rightarrow> bool" where
  "is_upper c = (65 \<le> (of_char c :: nat) \<and> (of_char c :: nat) \<le> 90)"

definition is_lower :: "char \<Rightarrow> bool" where
  "is_lower c = (97 \<le> (of_char c :: nat) \<and> (of_char c :: nat) \<le> 122)"

definition is_digit :: "char \<Rightarrow> bool" where
  "is_digit c = (48 \<le> (of_char c :: nat) \<and> (of_char c :: nat) \<le> 57)"

definition py_isword :: "char \<Rightarrow> bool" where
  \<comment> \<open>\<open>\w\<close>: alphanumeric (as \<open>str.isalnum\<close>) or underscore\<close>
  "py_isword c =
     (is_upper c \<or> is_lower c \<or> is_digit c \<or> c = CHR ''_'' \<or>
      (of_char c :: nat) \<in> {170, 178, 179, 181, 185, 186, 188, 189, 190} \<or>
      (of_char c :: nat) \<in> {192..214} \<or> (of_char c :: nat) \<in> {216..246} \<or>
      (of_char c :: nat) \<in> {248..255})"

definition py_strip :: "string \<Rightarrow> string" where
  \<comment> \<open>\<open>s.strip()\<close>\<close>
  "py_strip s = rev (dropWhile py_isspace (rev (dropWhile py_isspace s)))"

fun py_split_nl :: "string \<Rightarrow> string list" where
  \<comment> \<open>\<open>s.split('\n')\<close>: empty pieces are kept\<close>
  "py_split_nl [] = [[]]"
| "py_split_nl (c # cs) =
     (if c = CHR 0x0A then [] # py_split_nl cs
      else (case py_split_nl cs of [] \<Rightarrow> [[c]] | p # ps \<Rightarrow> (c # p) # ps))"

definition py_slice_from :: "string \<Rightarrow> int \<Rightarrow> string" where
  \<comment> \<open>\<open>s[i:]\<close>: a negative \<open>i\<close> counts from the end, out-of-range bounds are clipped\<close>
  "py_slice_from s i =
     (if i < 0 then drop (nat (max 0 (int (length s) + i))) s else drop (nat i) s)"

subsection \<open>Regular-expression substitution\<close>

text \<open>
  \<open>re.sub(pattern, '', text)\<close> scans the text from the left. At each position it tries
  the pattern; a match is dropped and the scan goes on behind it, otherwise the
  character is kept. A matcher gets the character before the position (for \<open>\b\<close>) and
  the rest of the text, and returns the length of the match. None of the patterns
  below matches the empty string. The counter \<open>skip\<close> is the number of characters of
  the current match still to be dropped.
\<close>

fun re_sub_scan :: "(char option \<Rightarrow> string \<Rightarrow> nat option) \<Rightarrow> char option \<Rightarrow> nat \<Rightarrow> string \<Rightarrow> string" where
  "re_sub_scan m prev skip [] = []"
| "re_sub_scan m prev (Suc n) (c # cs) = re_sub_scan m (Some c) n cs"
| "re_sub_scan m prev 0 (c # cs) =
     (case m prev (c # cs) of
        Some (Suc n) \<Rightarrow> re_sub_scan m (Some c) n cs
      | _ \<Rightarrow> c # re_sub_scan m (Some c) 0 cs)"

definition re_sub_remove :: "(char option \<Rightarrow> string \<Rightarrow> nat option) \<Rightarrow> string \<Rightarrow> string" where
  "re_sub_remove m s = re_sub_scan m None 0 s"

text \<open>\<open>re.sub(r'\s+', ' ', text)\<close>: every maximal run of whitespace becomes one space.\<close>

function collapse_ws :: "string \<Rightarrow> string" where
  "collapse_ws [] = []"
| "collapse_ws (c # cs) =
     (if py_isspace c then CHR '' '' # collapse_ws (dropWhile py_isspace cs)
      else c # collapse_ws cs)"
  by pat_completeness auto
termination
  by (relation "measure length") (auto simp: length_dropWhile_le le_imp_less_Suc)

text \<open>
  The URL pattern
  \<^verbatim>\<open>http[s]?://(?:[a-zA-Z]|[0-9]|[$-_@.&+]|[!*\\(\\),]|(?:%[0-9a-fA-F][0-9a-fA-F]))+\<close>.
  Every alternative of the group but the last consumes one character; the last one
  starts with \<open>%\<close>, which the range \<open>$-_\<close> of the third alternative already takes, so
  the greedy group consumes the longest run of characters of \<open>url_char\<close>.
\<close>

definition url_char :: "char \<Rightarrow> bool" where
  "url_char c =
     (is_lower c \<or> is_upper c \<or> is_digit c \<or>
      (36 \<le> (of_char c :: nat) \<and> (of_char c :: nat) \<le> 95) \<or> c \<in> set ''@.&+'' \<or>
      c \<in> {CHR ''!'', CHR ''*'', CHR 0x5C, CHR ''('', CHR '')'', CHR '',''})"

fun strip_prefix :: "string \<Rightarrow> string \<Rightarrow> string option" where
  "strip_prefix [] s = Some s"
| "strip_prefix (p # ps) [] = None"
| "strip_prefix (p # ps) (c # cs) = (if p = c then strip_prefix ps cs else None)"

definition url_body :: "nat \<Rightarrow> string \<Rightarrow> nat option" where
  "url_body n s =
     (let k = length (takeWhile url_char s) in if 1 \<le> k then Some (n + k) else None)"

definition url_match :: "char option \<Rightarrow> string \<Rightarrow> nat option" where
  "url_match prev s =
     (case strip_prefix ''https://'' s of
        Some r \<Rightarrow> url_body 8 r
      | None \<Rightarrow>
          (case strip_prefix ''http://'' s of
             Some r \<Rightarrow> url_body 7 r
           | None \<Rightarrow> None))"

text \<open>
  The e-mail pattern
  \<^verbatim>\<open>\b[A-Za-z0-9._%+-]+@[A-Za-z0-9.-]+\.[A-Z|a-z]{2,}\b\<close>.
  The local part is the longest run of its class and must be followed by \<open>@\<close>. The
  domain is greedy and backtracks: the matcher tries the longest domain first, and for
  each domain followed by a dot the longest top-level part first, down to two
  characters, until a word boundary follows.
\<close>

definition local_char :: "char \<Rightarrow> bool" where
  "local_char c = (is_upper c \<or> is_lower c \<or> is_digit c \<or> c \<in> set ''._%+-'')"

definition domain_char :: "char \<Rightarrow> bool" where
  "domain_char c = (is_upper c \<or> is_lower c \<or> is_digit c \<or> c \<in> set ''.-'')"

definition tld_char :: "char \<Rightarrow> bool" where
  "tld_char c = (is_upper c \<or> c = CHR ''|'' \<or> is_lower c)"

definition word_boundary :: "char option \<Rightarrow> char option \<Rightarrow> bool" where
  \<comment> \<open>\<open>\b\<close> between two neighbouring characters; \<open>None\<close> is an end of the text\<close>
  "word_boundary a b =
     ((case a of None \<Rightarrow> False | Some c \<Rightarrow> py_isword c) \<noteq>
      (case b of None \<Rightarrow> False | Some c \<Rightarrow> py_isword c))"

definition char_at :: "string \<Rightarrow> nat \<Rightarrow> char option" where
  "char_at s i = (if i < length s then Some (s ! i) else None)"

fun try_tld :: "string \<Rightarrow> nat \<Rightarrow> nat option" where
  "try_tld t 0 = None"
| "try_tld t (Suc n) =
     (if Suc n < 2 then None
      else if word_boundary (char_at t n) (char_at t (Suc n)) then Some (Suc n)
      else try_tld t n)"

fun try_domain :: "string \<Rightarrow> nat \<Rightarrow> nat option" where
  "try_domain r 0 = None"
| "try_domain r (Suc j) =
     (if char_at r (Suc j) = Some CHR ''.'' then
        (let t = drop (Suc (Suc j)) r in
         case try_tld t (length (takeWhile tld_char t)) of
           Some n \<Rightarrow> Some (Suc (Suc j) + n)
         | None \<Rightarrow> try_domain r j)
      else try_domain r j)"

definition email_match :: "char option \<Rightarrow> string \<Rightarrow> nat option" where
  "email_match prev s =
     (let l = length (takeWhile local_char s) in
      if word_boundary prev (char_at s 0) \<and> 0 < l \<and> char_at s l = Some CHR ''@'' then
        (let r = drop (Suc l) s in
         case try_domain r (length (takeWhile domain_char r)) of
           Some n \<Rightarrow> Some (Suc l + n)
         | None \<Rightarrow> None)
      else None)"

definition preprocess_text :: "string \<Rightarrow> string" where
  \<comment> \<open>\<open>VectorService._preprocess_text\<close>\<close>
  "preprocess_text t =
     (let t1 = collapse_ws t;
          t2 = re_sub_remove url_match t1;
          t3 = re_sub_remove email_match t2
      in py_strip t3)"

subsection \<open>Chunking\<close>

text \<open>
  \<open>VectorService._split_text\<close>. The loop over the paragraphs carries the list of
  finished chunks and the chunk being filled. The size test of the source,
  \<open>len(current_chunk + paragraph) / 4 > max_tokens\<close>, is a true division.
\<close>

definition overlap_text :: "int \<Rightarrow> string \<Rightarrow> string" where
  \<comment> \<open>\<open>current_chunk[-overlap*4:] if len(current_chunk) > overlap*4 else current_chunk\<close>\<close>
  "overlap_text overlap cur =
     (if int (length cur) > overlap * 4 then py_slice_from cur (- overlap * 4) else cur)"

fun split_loop :: "int \<Rightarrow> int \<Rightarrow> string list \<Rightarrow> string list \<Rightarrow> string \<Rightarrow> string list \<times> string" where
  "split_loop max_tokens overlap [] chunks cur = (chunks, cur)"
| "split_loop max_tokens overlap (p # ps) chunks cur =
     (let paragraph = py_strip p in
      if paragraph = [] then split_loop max_tokens overlap ps chunks cur
      else if real (length (cur @ paragraph)) / 4 > real_of_int max_tokens then
        (if cur \<noteq> [] then
           split_loop max_tokens overlap ps (chunks @ [py_strip cur])
             (overlap_text overlap cur @ [CHR 0x0A] @ paragraph)
         else split_loop max_tokens overlap ps chunks paragraph)
      else
        split_loop max_tokens overlap ps chunks
          (if cur \<noteq> [] then cur @ [CHR 0x0A] @ paragraph else paragraph))"

definition split_text :: "string \<Rightarrow> int \<Rightarrow> int \<Rightarrow> string list" where
  "split_text t max_tokens overlap =
     (case split_loop max_tokens overlap (py_split_nl t) [] [] of
        (chunks, cur) \<Rightarrow> if cur \<noteq> [] then chunks @ [py_strip cur] else chunks)"

section \<open>The vector store (\<open>VectorService\<close>)\<close>

subsection \<open>Data\<close>

text \<open>
  Metadata dictionaries hold caller attributes next to the fields the store assigns,
  so their values are Python values. A Python \<open>dict\<close> keeps insertion order: it is an
  association list, \<open>d[k] = v\<close> is \<open>AList.update\<close> (in place, or appended), \<open>d.pop(k, None)\<close>
  is \<open>AList.delete\<close> and \<open>d.get(k)\<close> is \<open>map_of\<close>.

  The metadata dictionaries are objects that the code changes in place and that the
  caller may pass more than once, so they live in a heap: \<open>objects\<close> is the list of
  dictionary objects, an address is a position in it, and \<open>metadata\<close> maps a document
  id to the address of its dictionary. Two ids with the same address share one
  dictionary. The documents table holds values the code never changes.
\<close>

datatype pyval = PNone | PBool bool | PInt int | PFloat real | PStr string

type_synonym pydict = "(string \<times> pyval) list"

type_synonym vec = "real list"

datatype error = EmbedFailure | DimensionMismatch | AssertionError | TypeError | KeyError | IndexError

fun truthy :: "pyval \<Rightarrow> bool" where
  "truthy PNone = False"
| "truthy (PBool b) = b"
| "truthy (PInt i) = (i \<noteq> 0)"
| "truthy (PFloat r) = (r \<noteq> 0)"
| "truthy (PStr s) = (s \<noteq> [])"

fun as_number :: "pyval \<Rightarrow> real option" where
  "as_number (PBool b) = Some (if b then 1 else 0)"
| "as_number (PInt i) = Some (real_of_int i)"
| "as_number (PFloat r) = Some r"
| "as_number v = None"

definition dict_get :: "('k \<times> 'v) list \<Rightarrow> 'k \<Rightarrow> 'v \<Rightarrow> 'v" where
  \<comment> \<open>\<open>d.get(k, default)\<close>\<close>
  "dict_get d k dflt = (case map_of d k of None \<Rightarrow> dflt | Some v \<Rightarrow> v)"

record doc_data =
  doc_text :: string
  processed_text :: string
  chunks :: "string list"
  chunk_count :: nat

record store =
  vector_dim :: nat
  model_name :: string
  index :: "vec list"
  metadata :: "(string \<times> nat) list"
  objects :: "pydict list"
  documents :: "(string \<times> doc_data) list"
  id_to_index :: "(string \<times> nat) list"

record 's search_result =
  r_doc_id :: string
  r_score :: 's
  r_content :: string
  r_metadata :: pydict
  r_chunk_hit :: string

record doc_view =
  v_doc_id :: string
  v_content :: string
  v_metadata :: pydict
  v_chunks :: "string list"

definition empty_store :: "nat \<Rightarrow> string \<Rightarrow> store" where
  \<comment> \<open>\<open>__init__\<close> with nothing on disk\<close>
  "empty_store d name =
     \<lparr>vector_dim = d, model_name = name, index = [], metadata = [], objects = [],
      documents = [], id_to_index = []\<rparr>"

definition deref :: "pydict list \<Rightarrow> nat \<Rightarrow> pydict" where
  \<comment> \<open>the dictionary at an address; every address the store holds is in the heap\<close>
  "deref objs a = (if a < length objs then objs ! a else [])"

definition meta_dict :: "store \<Rightarrow> string \<Rightarrow> pydict" where
  \<comment> \<open>\<open>self.metadata.get(doc_id, {})\<close>\<close>
  "meta_dict st doc_id =
     (case map_of (metadata st) doc_id of None \<Rightarrow> [] | Some a \<Rightarrow> deref (objects st) a)"

definition meta_view :: "store \<Rightarrow> (string \<times> pydict) list" where
  \<comment> \<open>\<open>self.metadata.items()\<close>\<close>
  "meta_view st = map (\<lambda>(i, a). (i, deref (objects st) a)) (metadata st)"

subsection \<open>The collaborators: embedder, index and floating point\<close>

text \<open>
  \<open>self.embeddings.encode\<close> is an external capability: a parameter of every operation
  that calls it. It maps a batch of texts to a batch of vectors, or raises (\<open>None\<close>).
  An answer that is not a two-dimensional array makes the next call of the index
  raise, before anything has been assigned; such an answer counts as raising.

  \<open>faiss.IndexFlatIP\<close> is a list of vectors addressed by position. \<open>add\<close> appends and
  rejects rows of the wrong width. \<open>search\<close> asserts that the query has the width of
  the index and that the number of hits asked for is positive.

  The vectors are float32 numbers, as the embedding model returns them, so that
  \<open>astype('float32')\<close> changes nothing; a float32 number is a real number.

  What the libraries compute in floating point is not recomputed in the model but
  taken as the parameter \<open>lib\<close>. The type \<open>'s\<close> is the type of scores (float32 values).
  \<open>lib_search\<close> is what \<open>IndexFlatIP.search\<close> returns on a valid call: the scores faiss
  computed with their labels, in the order faiss returns them. \<open>lib_below\<close> is the
  outcome of \<open>score < score_threshold\<close>, numpy's comparison of a float32 score with the
  Python float threshold. \<open>float(score)\<close> is the same number as the score.
\<close>

type_synonym encoder = "string list \<Rightarrow> vec list option"

record 's numlib =
  lib_search :: "vec list \<Rightarrow> vec \<Rightarrow> nat \<Rightarrow> ('s \<times> int) list"
  lib_below :: "'s \<Rightarrow> real \<Rightarrow> bool"

definition faiss_add :: "nat \<Rightarrow> vec list \<Rightarrow> vec list \<Rightarrow> error + vec list" where
  "faiss_add d idx vs =
     (if list_all (\<lambda>v. length v = d) vs then Inr (idx @ vs) else Inl DimensionMismatch)"

definition faiss_search :: "'s numlib \<Rightarrow> nat \<Rightarrow> vec list \<Rightarrow> vec \<Rightarrow> int \<Rightarrow> error + ('s \<times> int) list" where
  "faiss_search lib d idx q n =
     (if length q = d \<and> 0 < n then Inr (lib_search lib idx q (nat n))
      else Inl AssertionError)"

subsection \<open>\<open>add_document\<close>\<close>

text \<open>
  \<open>_save_index\<close> writes the three files, catches its own exceptions and changes
  nothing in memory; the files are not part of the model.

  The \<open>metadata\<close> argument is \<open>None\<close>, or a dictionary object the store does not hold
  (\<open>NewDict\<close>, with its contents), or the dictionary object at an address of the heap
  (\<open>HeldDict\<close>): one the store already holds, because the caller passed it before.
  \<open>doc_metadata = metadata or {}\<close> takes that object unless it is empty, and a new empty
  dictionary otherwise. The code updates this object in place and stores it.
\<close>

datatype meta_arg = NoDict | NewDict pydict | HeldDict nat

definition arg_dict :: "pydict list \<Rightarrow> meta_arg \<Rightarrow> pydict" where
  \<comment> \<open>the contents of the argument when the call is made\<close>
  "arg_dict objs arg =
     (case arg of NoDict \<Rightarrow> [] | NewDict d \<Rightarrow> d | HeldDict a \<Rightarrow> deref objs a)"

definition pass_dict :: "pydict list \<Rightarrow> meta_arg \<Rightarrow> nat \<times> pydict list" where
  \<comment> \<open>\<open>metadata or {}\<close>: the address of the dictionary to update, and the heap with it\<close>
  "pass_dict objs arg =
     (case arg of
        NoDict \<Rightarrow> (length objs, objs @ [[]])
      | NewDict d \<Rightarrow> (length objs, objs @ [d])
      | HeldDict a \<Rightarrow>
          if deref objs a = [] then (length objs, objs @ [[]]) else (a, objs))"

definition digit_char :: "nat \<Rightarrow> char" where
  "digit_char n = char_of (48 + n)"

function str_nat :: "nat \<Rightarrow> string" where
  \<comment> \<open>\<open>str(i)\<close> of a non-negative integer\<close>
  "str_nat n = (if n < 10 then [digit_char n] else str_nat (n div 10) @ [digit_char (n mod 10)])"
  by pat_completeness auto
termination
  by (relation "measure id") auto

declare str_nat.simps [simp del]

definition chunk_key :: "string \<Rightarrow> nat \<Rightarrow> string" where
  \<comment> \<open>\<open>f"{doc_id}_chunk_{i}"\<close>\<close>
  "chunk_key doc_id i = doc_id @ ''_chunk_'' @ str_nat i"

definition map_chunks :: "string \<Rightarrow> nat \<Rightarrow> nat \<Rightarrow> (string \<times> nat) list \<Rightarrow> (string \<times> nat) list" where
  \<comment> \<open>the loop \<open>self.id_to_index[f"{doc_id}_chunk_{i}"] = start_index + i\<close>\<close>
  "map_chunks doc_id start n m =
     foldl (\<lambda>acc i. AList.update (chunk_key doc_id i) (start + i) acc) m [0..<n]"

definition store_metadata :: "pydict \<Rightarrow> string \<Rightarrow> nat \<Rightarrow> nat \<Rightarrow> string \<Rightarrow> string \<Rightarrow> pydict" where
  \<comment> \<open>\<open>doc_metadata.update({...})\<close>, key by key in the order of the literal\<close>
  "store_metadata m doc_id n start now name =
     AList.update ''vector_model'' (PStr name)
       (AList.update ''created_at'' (PStr now)
         (AList.update ''end_index'' (PInt (int start + int n - 1))
           (AList.update ''start_index'' (PInt (int start))
             (AList.update ''chunk_count'' (PInt (int n))
               (AList.update ''doc_id'' (PStr doc_id) m)))))"

definition add_document_try :: "encoder \<Rightarrow> string \<Rightarrow> store \<Rightarrow> string \<Rightarrow> string \<Rightarrow> meta_arg \<Rightarrow> error + store" where
  \<comment> \<open>the body of the \<open>try\<close>; \<open>now\<close> is \<open>datetime.now().isoformat()\<close>\<close>
  "add_document_try enc now st doc_id txt arg =
     (if doc_id \<in> set (map fst (documents st)) then Inr st
      else
        (let processed = preprocess_text txt;
             cs = split_text processed 512 50
         in case enc cs of
              None \<Rightarrow> Inl EmbedFailure
            | Some vectors \<Rightarrow>
                (let start_index = length (index st)
                 in case faiss_add (vector_dim st) (index st) vectors of
                      Inl e \<Rightarrow> Inl e
                    | Inr idx \<Rightarrow>
                        (case pass_dict (objects st) arg of
                           (a, objs) \<Rightarrow>
                             Inr (st\<lparr>index := idx,
                                     documents :=
                                       AList.update doc_id
                                         \<lparr>doc_text = txt, processed_text = processed,
                                          chunks = cs, chunk_count = length cs\<rparr>
                                         (documents st),
                                     objects :=
                                       objs[a := store_metadata (deref objs a) doc_id
                                                   (length cs) start_index now
                                                   (model_name st)],
                                     metadata := AList.update doc_id a (metadata st),
                                     id_to_index :=
                                       map_chunks doc_id start_index (length cs)
                                         (id_to_index st)\<rparr>)))))"

definition add_document :: "encoder \<Rightarrow> string \<Rightarrow> store \<Rightarrow> string \<Rightarrow> string \<Rightarrow> meta_arg \<Rightarrow> bool \<times> store" where
  \<comment> \<open>every exception is raised before the first assignment, logged, and answered \<open>False\<close>\<close>
  "add_document enc now st doc_id txt arg =
     (case add_document_try enc now st doc_id txt arg of
        Inl e \<Rightarrow> (False, st)
      | Inr st' \<Rightarrow> (True, st'))"

subsection \<open>\<open>search_similar\<close>\<close>

fun find_doc_by_index :: "(string \<times> pydict) list \<Rightarrow> int \<Rightarrow> error + string option" where
  \<comment> \<open>over \<open>self.metadata.items()\<close>. \<open>start_idx <= index <= end_idx\<close> is chained: the second
      comparison runs only if the first holds; comparing a non-number with the position
      raises \<open>TypeError\<close>\<close>
  "find_doc_by_index [] idx = Inr None"
| "find_doc_by_index ((doc_id, m) # rest) idx =
     (case as_number (dict_get m ''start_index'' (PInt (- 1))) of
        None \<Rightarrow> Inl TypeError
      | Some start_idx \<Rightarrow>
          if start_idx \<le> real_of_int idx then
            (case as_number (dict_get m ''end_index'' (PInt (- 1))) of
               None \<Rightarrow> Inl TypeError
             | Some end_idx \<Rightarrow>
                 if real_of_int idx \<le> end_idx then Inr (Some doc_id)
                 else find_doc_by_index rest idx)
          else find_doc_by_index rest idx)"

definition chunk_at :: "string list \<Rightarrow> int \<Rightarrow> string" where
  \<comment> \<open>\<open>chunks[chunk_idx] if 0 <= chunk_idx < len(chunks) else ""\<close>\<close>
  "chunk_at cs i = (if 0 \<le> i \<and> i < int (length cs) then cs ! nat i else [])"

definition get_chunk_content :: "store \<Rightarrow> string \<Rightarrow> int \<Rightarrow> error + string" where
  \<comment> \<open>a float \<open>start_index\<close> makes the chunk index a float, which cannot index a list\<close>
  "get_chunk_content st doc_id idx =
     (let cs = (case map_of (documents st) doc_id of None \<Rightarrow> [] | Some d \<Rightarrow> chunks d);
          m = meta_dict st doc_id
      in case dict_get m ''start_index'' (PInt 0) of
           PInt s \<Rightarrow> Inr (chunk_at cs (idx - s))
         | PBool b \<Rightarrow> Inr (chunk_at cs (idx - (if b then 1 else 0)))
         | PFloat r \<Rightarrow>
             if 0 \<le> real_of_int idx - r \<and> real_of_int idx - r < real (length cs)
             then Inl TypeError
             else Inr []
         | _ \<Rightarrow> Inl TypeError)"

fun search_loop :: "'s numlib \<Rightarrow> store \<Rightarrow> int \<Rightarrow> real \<Rightarrow> ('s \<times> int) list \<Rightarrow> 's search_result list \<Rightarrow> string set \<Rightarrow> error + 's search_result list" where
  "search_loop lib st k score_threshold [] results seen_docs = Inr results"
| "search_loop lib st k score_threshold ((score, idx) # hits) results seen_docs =
     (if lib_below lib score score_threshold then
        search_loop lib st k score_threshold hits results seen_docs
      else
        case find_doc_by_index (meta_view st) idx of
          Inl e \<Rightarrow> Inl e
        | Inr None \<Rightarrow> search_loop lib st k score_threshold hits results seen_docs
        | Inr (Some doc_id) \<Rightarrow>
            if doc_id \<noteq> [] \<and> doc_id \<notin> seen_docs then
              (case get_chunk_content st doc_id idx of
                 Inl e \<Rightarrow> Inl e
               | Inr hit \<Rightarrow>
                   (let result =
                          \<lparr>r_doc_id = doc_id, r_score = score,
                           r_content =
                             (case map_of (documents st) doc_id of
                                None \<Rightarrow> [] | Some d \<Rightarrow> doc_text d),
                           r_metadata = meta_dict st doc_id,
                           r_chunk_hit = hit\<rparr>;
                        results' = results @ [result]
                    in if int (length results') \<ge> k then Inr results'
                       else search_loop lib st k score_threshold hits results'
                              (insert doc_id seen_docs)))
            else search_loop lib st k score_threshold hits results seen_docs)"

definition search_similar_try :: "'s numlib \<Rightarrow> encoder \<Rightarrow> store \<Rightarrow> string \<Rightarrow> int \<Rightarrow> real \<Rightarrow> error + 's search_result list" where
  \<comment> \<open>the body of the \<open>try\<close>; row 0 of the encoded batch is the query vector\<close>
  "search_similar_try lib enc st query k score_threshold =
     (if length (index st) = 0 then Inr []
      else
        case enc [query] of
          None \<Rightarrow> Inl EmbedFailure
        | Some [] \<Rightarrow> Inl IndexError
        | Some (query_vector # _) \<Rightarrow>
            (case faiss_search lib (vector_dim st) (index st) query_vector
                    (min (k * 2) (int (length (index st)))) of
               Inl e \<Rightarrow> Inl e
             | Inr hits \<Rightarrow> search_loop lib st k score_threshold hits [] {}))"

definition search_similar :: "'s numlib \<Rightarrow> encoder \<Rightarrow> store \<Rightarrow> string \<Rightarrow> int \<Rightarrow> real \<Rightarrow> error + 's search_result list" where
  \<comment> \<open>\<open>except Exception: ... return []\<close>. The outcome is kept a sum so that "raises" can
      be told from "returns"\<close>
  "search_similar lib enc st query k score_threshold =
     (case search_similar_try lib enc st query k score_threshold of
        Inl e \<Rightarrow> Inr []
      | Inr results \<Rightarrow> Inr results)"

subsection \<open>\<open>get_document\<close> and \<open>delete_document\<close>\<close>

definition get_document :: "store \<Rightarrow> string \<Rightarrow> doc_view option" where
  "get_document st doc_id =
     (case map_of (documents st) doc_id of
        None \<Rightarrow> None
      | Some d \<Rightarrow>
          Some \<lparr>v_doc_id = doc_id, v_content = doc_text d,
                v_metadata = meta_dict st doc_id, v_chunks = chunks d\<rparr>)"

definition delete_document :: "string \<Rightarrow> store \<Rightarrow> string \<Rightarrow> bool \<times> store" where
  \<comment> \<open>marks the document's dictionary in place; the index is not touched\<close>
  "delete_document now st doc_id =
     (if doc_id \<in> set (map fst (documents st)) then
        (True,
         case map_of (metadata st) doc_id of
           None \<Rightarrow> st
         | Some a \<Rightarrow>
             st\<lparr>objects :=
                  (objects st)
                    [a := AList.update ''deleted_at'' (PStr now)
                            (AList.update ''deleted'' (PBool True)
                               (deref (objects st) a))]\<rparr>)
      else (False, st))"

definition is_deleted :: "store \<Rightarrow> string \<Rightarrow> bool" where
  \<comment> \<open>\<open>self.metadata.get(doc_id, {}).get("deleted", False)\<close>, as a truth value\<close>
  "is_deleted st doc_id = truthy (dict_get (meta_dict st doc_id) ''deleted'' (PBool False))"

subsection \<open>\<open>rebuild_index\<close>\<close>

fun active_docs :: "store \<Rightarrow> (string \<times> doc_data) list \<Rightarrow> error + (string \<times> doc_data \<times> nat) list" where
  \<comment> \<open>the list comprehension: the filter first, then \<open>self.metadata[doc_id]\<close>, which raises
      \<open>KeyError\<close> for a document without metadata; the third component is the address of
      the document's dictionary\<close>
  "active_docs st [] = Inr []"
| "active_docs st ((doc_id, d) # rest) =
     (if \<not> is_deleted st doc_id then
        (case map_of (metadata st) doc_id of
           None \<Rightarrow> Inl KeyError
         | Some a \<Rightarrow>
             (case active_docs st rest of
                Inl e \<Rightarrow> Inl e
              | Inr xs \<Rightarrow> Inr ((doc_id, d, a) # xs)))
      else active_docs st rest)"

definition rebuilt_metadata :: "pydict \<Rightarrow> nat \<Rightarrow> nat \<Rightarrow> pydict" where
  "rebuilt_metadata m start n =
     AList.delete ''deleted_at''
       (AList.delete ''deleted''
         (AList.update ''end_index'' (PInt (int start + int n - 1))
           (AList.update ''start_index'' (PInt (int start)) m)))"

text \<open>
  The loop of \<open>rebuild_index\<close> works on \<open>self.index\<close> and \<open>self.id_to_index\<close> directly and
  changes each metadata dictionary in place, as it is at that moment; \<open>new_metadata\<close>
  and \<open>new_documents\<close> are local until the loop is over. An exception leaves the loop
  with the store as it is at that moment.
\<close>

fun rebuild_loop :: "encoder \<Rightarrow> (string \<times> doc_data \<times> nat) list \<Rightarrow> store \<Rightarrow> (string \<times> nat) list \<Rightarrow> (string \<times> doc_data) list \<Rightarrow> (error + (string \<times> nat) list \<times> (string \<times> doc_data) list) \<times> store" where
  "rebuild_loop enc [] st new_metadata new_documents = (Inr (new_metadata, new_documents), st)"
| "rebuild_loop enc ((doc_id, d, a) # rest) st new_metadata new_documents =
     (case enc (chunks d) of
        None \<Rightarrow> (Inl EmbedFailure, st)
      | Some vectors \<Rightarrow>
          (let start_index = length (index st)
           in case faiss_add (vector_dim st) (index st) vectors of
                Inl e \<Rightarrow> (Inl e, st)
              | Inr idx \<Rightarrow>
                  rebuild_loop enc rest
                    (st\<lparr>index := idx,
                        objects :=
                          (objects st)
                            [a := rebuilt_metadata (deref (objects st) a) start_index
                                    (length (chunks d))],
                        id_to_index :=
                          map_chunks doc_id start_index (length (chunks d))
                            (id_to_index st)\<rparr>)
                    (AList.update doc_id a new_metadata)
                    (AList.update doc_id d new_documents)))"

definition rebuild_index :: "encoder \<Rightarrow> store \<Rightarrow> bool \<times> store" where
  "rebuild_index enc st =
     (case active_docs st (documents st) of
        Inl e \<Rightarrow> (False, st)
      | Inr active \<Rightarrow>
          (case rebuild_loop enc active (st\<lparr>index := [], id_to_index := []\<rparr>) [] [] of
             (Inl e, st') \<Rightarrow> (False, st')
           | (Inr (new_metadata, new_documents), st') \<Rightarrow>
               (True, st'\<lparr>metadata := new_metadata, documents := new_documents\<rparr>)))"

subsection \<open>Sequences of operations\<close>

text \<open>
  A call carries the embedder as it answers during that call (the backend may be down
  for one call and up for the next) and the clock reading.
\<close>

datatype op = AddDocument string string meta_arg | DeleteDocument string | RebuildIndex

fun step :: "store \<Rightarrow> encoder \<times> string \<times> op \<Rightarrow> store" where
  "step st (enc, now, AddDocument doc_id txt arg) = snd (add_document enc now st doc_id txt arg)"
| "step st (enc, now, DeleteDocument doc_id) = snd (delete_document now st doc_id)"
| "step st (enc, now, RebuildIndex) = snd (rebuild_index enc st)"

definition run :: "store \<Rightarrow> (encoder \<times> string \<times> op) list \<Rightarrow> store" where
  "run st calls = foldl step st calls"

section \<open>Example data\<close>

text \<open>
  A small embedder (one component: the length of the text), a backend that is down,
  one that fails on a single batch, and the store after adding \<open>d1\<close> and \<open>d2\<close> to an
  empty store of dimension 1. \<open>ex_lib\<close> is the numeric library on this store: the
  inner products of the two stored vectors with the query vector \<open>[5]\<close> are 25 and 10,
  which float32 arithmetic computes exactly, and the scores are compared as they are.
\<close>

definition ex_emb :: "string \<Rightarrow> vec" where
  "ex_emb c = [real (length c)]"

definition ex_enc :: encoder where
  "ex_enc cs = Some (map ex_emb cs)"

definition enc_down :: encoder where
  "enc_down cs = None"

definition enc_flaky :: encoder where
  \<comment> \<open>the backend fails on the batch \<open>["bb"]\<close> and works otherwise\<close>
  "enc_flaky cs = (if cs = [''bb''] then None else Some (map ex_emb cs))"

definition ex_search :: "vec list \<Rightarrow> vec \<Rightarrow> nat \<Rightarrow> (real \<times> int) list" where
  "ex_search idx q n = (if idx = [[5], [2]] \<and> q = [5] then take n [(25, 0), (10, 1)] else [])"

definition ex_lib :: "real numlib" where
  "ex_lib = \<lparr>lib_search = ex_search, lib_below = (\<lambda>score th. score < th)\<rparr>"

definition ex_meta :: "string \<Rightarrow> int \<Rightarrow> string \<Rightarrow> pydict" where
  "ex_meta doc_id pos now =
     [(''doc_id'', PStr doc_id), (''chunk_count'', PInt 1), (''start_index'', PInt pos),
      (''end_index'', PInt pos), (''created_at'', PStr now), (''vector_model'', PStr ''m'')]"

definition ex_doc :: "string \<Rightarrow> doc_data" where
  "ex_doc t = \<lparr>doc_text = t, processed_text = t, chunks = [t], chunk_count = 1\<rparr>"

definition ex_store :: store where
  "ex_store =
     \<lparr>vector_dim = 1, model_name = ''m'', index = [[5], [2]],
      metadata = [(''d1'', 0), (''d2'', 1)],
      objects = [ex_meta ''d1'' 0 ''t0'', ex_meta ''d2'' 1 ''t1''],
      documents = [(''d1'', ex_doc ''hello''), (''d2'', ex_doc ''bb'')],
      id_to_index = [(''d1_chunk_0'', 0), (''d2_chunk_0'', 1)]\<rparr>"

definition ex_calls :: "(encoder \<times> string \<times> op) list" where
  "ex_calls =
     [(ex_enc, ''t0'', AddDocument ''d1'' ''hello'' NoDict),
      (ex_enc, ''t1'', AddDocument ''d2'' ''bb'' NoDict)]"

definition reserved_keys :: "string list" where
  \<comment> \<open>the keys of the literal in \<open>doc_metadata.update({...})\<close>\<close>
  "reserved_keys =
     [''doc_id'', ''chunk_count'', ''start_index'', ''end_index'', ''created_at'',
      ''vector_model'']"

definition ex_attrs :: pydict where
  "ex_attrs = [(''type'', PStr ''briefing''), (''doc_id'', PStr ''zz''), (''start_index'', PNone)]"

text \<open>
  One dictionary passed to two \<open>add_document\<close> calls: the first call stores it at
  address 0, the second call is given that same object.
\<close>

definition shared_calls :: "(encoder \<times> string \<times> op) list" where
  "shared_calls =
     [(ex_enc, ''t0'', AddDocument ''d1'' ''hello'' (NewDict [(''source'', PStr ''feed'')])),
      (ex_enc, ''t1'', AddDocument ''d2'' ''bb'' (HeldDict 0))]"

text \<open>
  A store as \<open>_load_index\<close> may read it from its files: the cached chunk of \<open>d1\<close> is not
  what the chunker gives on the stored text.
\<close>

definition stale_store :: store where
  "stale_store =
     \<lparr>vector_dim = 1, model_name = ''m'', index = [[5]],
      metadata = [(''d1'', 0)],
      objects = [ex_meta ''d1'' 0 ''t0''],
      documents =
        [(''d1'', \<lparr>doc_text = ''hello world'', processed_text = ''hello world'',
                   chunks = [''stale''], chunk_count = 1\<rparr>)],
      id_to_index = [(''d1_chunk_0'', 0)]\<rparr>"

text \<open>
  Float32 comparison as NumPy 2 does it: the Python float threshold is converted to
  float32 before it is compared with a float32 score. \<open>near_f32\<close> rounds to the nearest
  multiple of 1/16777216, which is float32 rounding for numbers from 1/2 up to 1. The store
  holds one vector, the float32 number nearest to 0.7; its inner product with the
  query vector \<open>[1]\<close> is that number.
\<close>

definition near_f32 :: "real \<Rightarrow> real" where
  "near_f32 x = real_of_int \<lfloor>x * 16777216 + 1 / 2\<rfloor> / 16777216"

definition f32_search :: "vec list \<Rightarrow> vec \<Rightarrow> nat \<Rightarrow> (real \<times> int) list" where
  "f32_search idx q n =
     (if idx = [[11744051 / 16777216]] \<and> q = [1] then take n [(11744051 / 16777216, 0)]
      else [])"

definition f32_lib :: "real numlib" where
  "f32_lib = \<lparr>lib_search = f32_search, lib_below = (\<lambda>score th. score < near_f32 th)\<rparr>"

definition unit_enc :: encoder where
  "unit_enc cs = Some (map (\<lambda>c. [1]) cs)"

definition f32_store :: store where
  "f32_store =
     \<lparr>vector_dim = 1, model_name = ''m'', index = [[11744051 / 16777216]],
      metadata = [(''d1'', 0)],
      objects = [ex_meta ''d1'' 0 ''t0''],
      documents = [(''d1'', ex_doc ''a'')],
      id_to_index = [(''d1_chunk_0'', 0)]\<rparr>"

section \<open>Predicates on texts\<close>

fun ws_collapsed :: "string \<Rightarrow> bool" where
  \<comment> \<open>the only whitespace is the single space, and never two in a row\<close>
  "ws_collapsed [] = True"
| "ws_collapsed [a] = (if py_isspace a then a = CHR '' '' else True)"
| "ws_collapsed (a # b # cs) =
     ((if py_isspace a then a = CHR '' '' \<and> \<not> py_isspace b else True) \<and>
      ws_collapsed (b # cs))"


section \<open>Invariants of the store\<close>

text \<open>
  \<open>catalog_ok\<close>: metadata and documents list the same ids in the same order, without
  repetition. \<open>heap_ok\<close>: every address in the metadata table is allocated, and no two
  ids have the same address, that is, no two documents share one dictionary object.
  \<open>ranges_from\<close>: walking the catalog in order, each document's range starts where the
  previous one ended and has one position per chunk. \<open>embedded\<close>: the vectors of all
  chunks of all documents, in catalog and chunk order. An embedder call \<open>agrees\<close> with
  an embedding function when it either fails or returns that function's vectors.
\<close>

definition catalog_ok :: "store \<Rightarrow> bool" where
  "catalog_ok st =
     (map fst (metadata st) = map fst (documents st) \<and> distinct (map fst (documents st)))"

definition heap_ok :: "store \<Rightarrow> bool" where
  "heap_ok st =
     (list_all (\<lambda>(i, a). a < length (objects st)) (metadata st) \<and>
      distinct (map snd (metadata st)))"

fun ranges_from :: "nat \<Rightarrow> (string \<times> doc_data) list \<Rightarrow> (string \<times> pydict) list \<Rightarrow> bool" where
  "ranges_from off [] [] = True"
| "ranges_from off ((i, d) # ds) ((j, m) # ms) =
     (i = j \<and>
      map_of m ''start_index'' = Some (PInt (int off)) \<and>
      map_of m ''end_index'' = Some (PInt (int off + int (length (chunks d)) - 1)) \<and>
      ranges_from (off + length (chunks d)) ds ms)"
| "ranges_from off ds ms = False"

definition embedded :: "(string \<Rightarrow> vec) \<Rightarrow> (string \<times> doc_data) list \<Rightarrow> vec list" where
  "embedded emb ds = concat (map (\<lambda>(i, d). map emb (chunks d)) ds)"

definition layout_ok :: "(string \<Rightarrow> vec) \<Rightarrow> store \<Rightarrow> bool" where
  "layout_ok emb st =
     (ranges_from 0 (documents st) (meta_view st) \<and> index st = embedded emb (documents st))"

definition agrees :: "(string \<Rightarrow> vec) \<Rightarrow> encoder \<Rightarrow> bool" where
  "agrees emb enc = (\<forall>cs. enc cs = None \<or> enc cs = Some (map emb cs))"

definition range_of :: "pydict \<Rightarrow> int set" where
  \<comment> \<open>the positions \<open>start_index..end_index\<close> of a metadata entry\<close>
  "range_of m =
     (case (map_of m ''start_index'', map_of m ''end_index'') of
        (Some (PInt s), Some (PInt e)) \<Rightarrow> {s..e}
      | _ \<Rightarrow> {})"

definition slice :: "'a list \<Rightarrow> int \<Rightarrow> int \<Rightarrow> 'a list" where
  \<comment> \<open>the entries at positions \<open>s..e\<close>\<close>
  "slice xs s e = take (nat (e - s + 1)) (drop (nat s) xs)"

fun rebuilds_succeed :: "store \<Rightarrow> (encoder \<times> string \<times> op) list \<Rightarrow> bool" where
  \<comment> \<open>every \<open>rebuild_index\<close> call of the sequence returns \<open>True\<close>\<close>
  "rebuilds_succeed st [] = True"
| "rebuilds_succeed st ((enc, now, RebuildIndex) # calls) =
     (fst (rebuild_index enc st) \<and> rebuilds_succeed (snd (rebuild_index enc st)) calls)"
| "rebuilds_succeed st (c # calls) = rebuilds_succeed (step st c) calls"

fun own_dict :: "encoder \<times> string \<times> op \<Rightarrow> bool" where
  \<comment> \<open>the call does not pass a dictionary object that an earlier call stored\<close>
  "own_dict (enc, now, AddDocument doc_id txt (HeldDict a)) = False"
| "own_dict c = True"

section \<open>Properties\<close>

subsection \<open>The example store is reachable\<close>

lemma ex_store_reached: "run (empty_store 1 ''m'') ex_calls = ex_store"
  by code_simp

subsection \<open>Adding an existing id\<close>

text \<open>
  C5. For an id that is already in the store, \<open>add_document\<close> returns \<open>True\<close> and leaves
  the whole store (index, metadata, dictionary objects, documents, id mapping) as it
  was. The test of the source is \<open>doc_id in self.documents\<close>, so this holds for every
  stored id, in particular for one that is not tombstoned.
\<close>

theorem add_existing_is_noop:
  "doc_id \<in> set (map fst (documents st)) \<Longrightarrow>
     add_document enc now st doc_id txt arg = (True, st)"
  by (simp add: add_document_def add_document_try_def)

theorem add_existing_is_noop_witness:
  "''d1'' \<in> set (map fst (documents ex_store)) \<and>
   add_document ex_enc ''t2'' ex_store ''d1'' ''other text'' (NewDict [(''a'', PInt 1)]) =
     (True, ex_store)"
proof -
  have h: "''d1'' \<in> set (map fst (documents ex_store))"
    by (simp add: ex_store_def)
  show ?thesis
    using h add_existing_is_noop [OF h] by simp
qed

subsection \<open>Searching never raises\<close>


text \<open>
  C6 (as the code has it). When the embedder fails on the query, \<open>search_similar\<close> does
  not raise: the \<open>except\<close> clause logs the failure and the call returns the empty list,
  the same answer as on an empty index.
\<close>

theorem search_swallows_embed_failure:
  "(enc [query] = None \<longrightarrow> search_similar lib enc st query k th = Inr []) \<and>
   (index st = [] \<longrightarrow> search_similar lib enc st query k th = Inr [])"
  by (simp add: search_similar_def search_similar_try_def split: sum.splits)

theorem search_swallows_embed_failure_witness:
  "enc_down [''q''] = None \<and> search_similar ex_lib enc_down ex_store ''q'' 5 (1 / 2) = Inr [] \<and>
   index (empty_store 1 ''m'') = [] \<and>
   search_similar ex_lib ex_enc (empty_store 1 ''m'') ''q'' 5 (1 / 2) = Inr []"
  using search_swallows_embed_failure [of enc_down "''q''" ex_lib ex_store 5 "1 / 2"]
    search_swallows_embed_failure [of ex_enc "''q''" ex_lib "empty_store 1 ''m''" 5 "1 / 2"]
  by (simp add: enc_down_def empty_store_def)

text \<open>
  C6 as stated fails: with the backend down and two vectors in the index, the call
  does not end in \<open>EmbedFailure\<close>.
\<close>

theorem embed_failure_not_propagated:
  "enc_down [''q''] = None \<and> index ex_store \<noteq> [] \<and>
   search_similar ex_lib enc_down ex_store ''q'' 5 (1 / 2) \<noteq> Inl EmbedFailure"
  by (simp add: enc_down_def ex_store_def search_similar_def search_similar_try_def)

subsection \<open>Tombstones and search\<close>

text \<open>
  C1 at a concrete input. \<open>delete_document\<close> marks \<open>d1\<close> as deleted and succeeds; the
  next search still returns \<open>d1\<close>, first in the list: \<open>_find_doc_by_index\<close> and the result
  loop never look at the \<open>deleted\<close> flag, which \<open>list_documents\<close>, \<open>get_stats\<close> and
  \<open>rebuild_index\<close> do honour.
\<close>

theorem deleted_document_still_found:
  "fst (delete_document ''t2'' ex_store ''d1'') = True \<and>
   is_deleted (snd (delete_document ''t2'' ex_store ''d1'')) ''d1'' \<and>
   map_sum id (map r_doc_id)
     (search_similar ex_lib ex_enc (snd (delete_document ''t2'' ex_store ''d1'')) ''hello'' 5
        (1 / 2)) =
     Inr [''d1'', ''d2'']"
  by code_simp

subsection \<open>The result list of a search\<close>




lemma search_loop_metadata:
  "search_loop lib st k th hits results seen = Inr rs \<Longrightarrow>
   \<forall>r\<in>set results. r_metadata r = meta_dict st (r_doc_id r) \<Longrightarrow>
   \<forall>r\<in>set rs. r_metadata r = meta_dict st (r_doc_id r)"
proof (induction lib st k th hits results seen rule: search_loop.induct)
  case (1 lib st k th results seen)
  then show ?case by simp
next
  case (2 lib st k th score idx hits results seen)
  then show ?case
    by (auto simp: Let_def split: if_splits sum.splits option.splits)
qed

lemma search_similar_try_cases:
  assumes "search_similar lib enc st query k th = Inr rs"
  shows "rs = [] \<or> (0 < k \<and> (\<exists>hits. search_loop lib st k th hits [] {} = Inr rs))"
  using assms
  by (auto simp: search_similar_def search_similar_try_def faiss_search_def
      split: sum.splits if_splits option.splits list.splits)




text \<open>
  The score of an entry can be less than the threshold as a real number: with the
  float32 comparison of NumPy 2 a stored score of 11744051/16777216 (the float32
  number nearest to 0.7) is not below the threshold 0.7, and the entry is returned.
\<close>

theorem kept_score_below_threshold:
  "map_sum id (map r_score) (search_similar f32_lib unit_enc f32_store ''q'' 5 (7 / 10)) =
     Inr [11744051 / 16777216] \<and>
   (11744051 / 16777216 :: real) < 7 / 10"
  by code_simp

subsection \<open>Metadata written by \<open>add_document\<close>\<close>

lemma search_similar_metadata:
  assumes "search_similar lib enc st query k th = Inr rs"
  shows "\<forall>r\<in>set rs. r_metadata r = meta_dict st (r_doc_id r)"
proof -
  from search_similar_try_cases [OF assms] show ?thesis
  proof
    assume "rs = []"
    then show ?thesis by simp
  next
    assume "0 < k \<and> (\<exists>hits. search_loop lib st k th hits [] {} = Inr rs)"
    then obtain hits where "search_loop lib st k th hits [] {} = Inr rs" by blast
    from search_loop_metadata [OF this] show ?thesis by simp
  qed
qed

lemma store_metadata_reserved:
  "map_of (store_metadata m doc_id n start now name) ''doc_id'' = Some (PStr doc_id)"
  "map_of (store_metadata m doc_id n start now name) ''chunk_count'' = Some (PInt (int n))"
  "map_of (store_metadata m doc_id n start now name) ''start_index'' = Some (PInt (int start))"
  "map_of (store_metadata m doc_id n start now name) ''end_index'' =
     Some (PInt (int start + int n - 1))"
  "map_of (store_metadata m doc_id n start now name) ''created_at'' = Some (PStr now)"
  "map_of (store_metadata m doc_id n start now name) ''vector_model'' = Some (PStr name)"
  by (simp_all add: store_metadata_def update_conv')

lemma store_metadata_other:
  "k \<notin> set reserved_keys \<Longrightarrow> map_of (store_metadata m doc_id n start now name) k = map_of m k"
  by (simp add: store_metadata_def update_conv' reserved_keys_def)

lemma faiss_add_Inr: "faiss_add d idx vs = Inr idx' \<Longrightarrow> idx' = idx @ vs"
  by (simp add: faiss_add_def split: if_splits)

lemma pass_dict_props:
  assumes "pass_dict objs arg = (a, objs1)"
  shows "a < length objs1" and "deref objs1 a = arg_dict objs arg"
    and "length objs \<le> length objs1"
    and "\<forall>b. b < length objs \<longrightarrow> objs1 ! b = objs ! b"
  using assms
  by (auto simp: pass_dict_def arg_dict_def deref_def nth_append
      split: meta_arg.splits if_splits)

lemma add_document_success:
  assumes "i \<notin> fst ` set (documents st)"
    and "add_document enc now st i txt arg = (True, st')"
  shows "\<exists>vs a objs1. enc (split_text (preprocess_text txt) 512 50) = Some vs \<and>
         pass_dict (objects st) arg = (a, objs1) \<and>
         index st' = index st @ vs \<and>
         documents st' =
           AList.update i
             \<lparr>doc_text = txt, processed_text = preprocess_text txt,
              chunks = split_text (preprocess_text txt) 512 50,
              chunk_count = length (split_text (preprocess_text txt) 512 50)\<rparr>
             (documents st) \<and>
         metadata st' = AList.update i a (metadata st) \<and>
         objects st' =
           objs1[a := store_metadata (arg_dict (objects st) arg) i
                  (length (split_text (preprocess_text txt) 512 50)) (length (index st)) now
                  (model_name st)] \<and>
         vector_dim st' = vector_dim st \<and> model_name st' = model_name st"
proof -
  note fresh = assms(1)
  let ?cs = "split_text (preprocess_text txt) 512 50"
  from assms obtain vs where vs: "enc ?cs = Some vs"
    by (cases "enc ?cs") (simp_all add: add_document_def add_document_try_def Let_def)
  from assms vs obtain idx where add: "faiss_add (vector_dim st) (index st) vs = Inr idx"
    by (cases "faiss_add (vector_dim st) (index st) vs")
      (simp_all add: add_document_def add_document_try_def Let_def)
  obtain a objs1 where p: "pass_dict (objects st) arg = (a, objs1)"
    by (cases "pass_dict (objects st) arg")
  have idx: "idx = index st @ vs" using add by (rule faiss_add_Inr)
  have dr: "deref objs1 a = arg_dict (objects st) arg"
    using pass_dict_props(2) [OF p] .
  have "st' = st\<lparr>index := idx,
       documents := AList.update i
         \<lparr>doc_text = txt, processed_text = preprocess_text txt, chunks = ?cs,
          chunk_count = length ?cs\<rparr> (documents st),
       objects := objs1[a := store_metadata (deref objs1 a) i (length ?cs)
          (length (index st)) now (model_name st)],
       metadata := AList.update i a (metadata st),
       id_to_index := map_chunks i (length (index st)) (length ?cs) (id_to_index st)\<rparr>"
    using assms vs add p
    by (simp add: add_document_def add_document_try_def Let_def)
  then show ?thesis using vs p idx dr by simp
qed

lemma add_document_unchanged:
  assumes "add_document enc now st i txt arg = (ok, st')"
    and "i \<in> fst ` set (documents st) \<or> \<not> ok"
  shows "st' = st"
  using assms
  by (auto simp: add_document_def add_document_try_def Let_def
      split: option.splits sum.splits prod.splits)

text \<open>
  C10. When \<open>add_document\<close> succeeds for an id that is not yet stored, the dictionary
  stored for the id carries the values the store assigns under \<open>doc_id\<close>, \<open>chunk_count\<close>,
  \<open>start_index\<close>, \<open>end_index\<close>, \<open>created_at\<close> and \<open>vector_model\<close>, whatever the
  caller supplied under these keys; every other key has the caller's value (or is
  absent, as it was); and \<open>get_document\<close> and every search result for that id return
  exactly this dictionary. The caller's attributes are the contents of the argument
  when the call is made.
\<close>

theorem add_overwrites_reserved_keys:
  assumes "doc_id \<notin> set (map fst (documents st))"
    and "add_document enc now st doc_id txt arg = (True, st')"
  shows "\<exists>a m. map_of (metadata st') doc_id = Some a \<and> a < length (objects st') \<and>
     objects st' ! a = m \<and>
     map_of m ''doc_id'' = Some (PStr doc_id) \<and>
     map_of m ''chunk_count'' =
       Some (PInt (int (length (split_text (preprocess_text txt) 512 50)))) \<and>
     map_of m ''start_index'' = Some (PInt (int (length (index st)))) \<and>
     map_of m ''end_index'' =
       Some (PInt (int (length (index st)) +
                   int (length (split_text (preprocess_text txt) 512 50)) - 1)) \<and>
     map_of m ''created_at'' = Some (PStr now) \<and>
     map_of m ''vector_model'' = Some (PStr (model_name st)) \<and>
     (\<forall>k. k \<notin> set reserved_keys \<longrightarrow> map_of m k = map_of (arg_dict (objects st) arg) k) \<and>
     map_option v_metadata (get_document st' doc_id) = Some m \<and>
     (\<forall>lib enc' q k th rs. search_similar lib enc' st' q k th = Inr rs \<longrightarrow>
        (\<forall>r\<in>set rs. r_doc_id r = doc_id \<longrightarrow> r_metadata r = m))"
proof -
  let ?cs = "split_text (preprocess_text txt) 512 50"
  let ?m = "store_metadata (arg_dict (objects st) arg) doc_id (length ?cs) (length (index st))
       now (model_name st)"
  have fresh: "doc_id \<notin> fst ` set (documents st)" using assms(1) by simp
  from add_document_success [OF fresh assms(2)] obtain vs a objs1 where
    p: "pass_dict (objects st) arg = (a, objs1)"
    and ds: "documents st' = AList.update doc_id
             \<lparr>doc_text = txt, processed_text = preprocess_text txt, chunks = ?cs,
              chunk_count = length ?cs\<rparr> (documents st)"
    and md: "metadata st' = AList.update doc_id a (metadata st)"
    and ob: "objects st' = objs1[a := ?m]"
    by blast
  have a: "a < length (objects st')"
    using pass_dict_props(1) [OF p] ob by simp
  have m: "map_of (metadata st') doc_id = Some a"
    using md by (simp add: update_conv')
  have o: "objects st' ! a = ?m"
    using pass_dict_props(1) [OF p] ob by simp
  have md: "meta_dict st' doc_id = ?m"
    using m a o by (simp add: meta_dict_def deref_def)
  have d: "\<exists>d. map_of (documents st') doc_id = Some d"
    using ds by (simp add: update_conv')
  have g: "map_option v_metadata (get_document st' doc_id) = Some ?m"
    using md d by (auto simp: get_document_def)
  have s: "\<forall>lib enc' q k th rs. search_similar lib enc' st' q k th = Inr rs \<longrightarrow>
        (\<forall>r\<in>set rs. r_doc_id r = doc_id \<longrightarrow> r_metadata r = ?m)"
    using search_similar_metadata md by fastforce
  show ?thesis
    using m a o g s store_metadata_reserved [of _ doc_id] store_metadata_other
    by (intro exI [of _ a] exI [of _ ?m]) simp
qed

theorem add_overwrites_reserved_keys_witness:
  "''d3'' \<notin> set (map fst (documents ex_store)) \<and>
   fst (add_document ex_enc ''t2'' ex_store ''d3'' ''abc'' (NewDict ex_attrs)) = True \<and>
   (\<exists>a m. map_of (metadata (snd (add_document ex_enc ''t2'' ex_store ''d3'' ''abc''
              (NewDict ex_attrs)))) ''d3'' = Some a \<and>
        objects (snd (add_document ex_enc ''t2'' ex_store ''d3'' ''abc'' (NewDict ex_attrs))) ! a
          = m \<and>
        map_of m ''doc_id'' = Some (PStr ''d3'') \<and>
        map_of m ''start_index'' = Some (PInt 2) \<and>
        map_of m ''type'' = Some (PStr ''briefing''))"
proof -
  let ?r = "add_document ex_enc ''t2'' ex_store ''d3'' ''abc'' (NewDict ex_attrs)"
  have h1: "''d3'' \<notin> set (map fst (documents ex_store))"
    by (simp add: ex_store_def)
  have f: "fst ?r = True"
    by code_simp
  then have h2: "?r = (True, snd ?r)"
    by (metis prod.collapse)
  have t: "map_of (arg_dict (objects ex_store) (NewDict ex_attrs)) ''type'' =
      Some (PStr ''briefing'')" "''type'' \<notin> set reserved_keys"
    "int (length (index ex_store)) = 2"
    by (simp_all add: ex_attrs_def reserved_keys_def ex_store_def arg_dict_def)
  from add_overwrites_reserved_keys [OF h1 h2] obtain a m where
    "map_of (metadata (snd ?r)) ''d3'' = Some a" "objects (snd ?r) ! a = m"
    "map_of m ''doc_id'' = Some (PStr ''d3'')"
    "map_of m ''start_index'' = Some (PInt (int (length (index ex_store))))"
    "\<forall>k. k \<notin> set reserved_keys \<longrightarrow>
       map_of m k = map_of (arg_dict (objects ex_store) (NewDict ex_attrs)) k"
    by auto
  with t have "map_of (metadata (snd ?r)) ''d3'' = Some a \<and> objects (snd ?r) ! a = m \<and>
        map_of m ''doc_id'' = Some (PStr ''d3'') \<and>
        map_of m ''start_index'' = Some (PInt 2) \<and>
        map_of m ''type'' = Some (PStr ''briefing'')"
    by simp
  with h1 f show ?thesis by blast
qed

subsection \<open>Chunking two paragraphs\<close>

lemma size_test: "(real n / 4 > real_of_int m) = (4 * m < int n)"
  by (simp add: field_simps) linarith

lemma py_split_nl_no_nl: "CHR 0x0A \<notin> set s \<Longrightarrow> py_split_nl s = [s]"
  by (induction s) auto

lemma py_split_nl_append:
  "CHR 0x0A \<notin> set a \<Longrightarrow> py_split_nl (a @ CHR 0x0A # b) = a # py_split_nl b"
  by (induction a) auto

lemma py_strip_fixed:
  assumes "s \<noteq> []" "\<not> py_isspace (hd s)" "\<not> py_isspace (last s)"
  shows "py_strip s = s"
proof -
  have a: "dropWhile py_isspace s = s"
    using assms(1,2) by (cases s) auto
  have b: "dropWhile py_isspace (rev s) = rev s"
    using assms(1,3) by (cases "rev s") (auto simp: last_rev [symmetric] simp del: last_rev)
  show ?thesis by (simp add: py_strip_def a b)
qed

lemma py_strip_ends:
  assumes "py_strip s \<noteq> []"
  shows "\<not> py_isspace (hd (py_strip s))" "\<not> py_isspace (last (py_strip s))"
proof -
  let ?t = "dropWhile py_isspace s"
  from assms have t: "?t \<noteq> []" by (cases "?t = []") (simp_all add: py_strip_def)
  then obtain x xs where x: "?t = x # xs" by (cases ?t) auto
  have nx: "\<not> py_isspace x" using x hd_dropWhile [of py_isspace s] t by (metis list.sel(1))
  have "dropWhile py_isspace (rev ?t) = dropWhile py_isspace (rev xs) @ [x]"
    using nx by (simp add: x dropWhile_append3)
  then have e: "py_strip s = x # rev (dropWhile py_isspace (rev xs))"
    by (simp add: py_strip_def)
  show "\<not> py_isspace (hd (py_strip s))" using e nx by simp
  have "dropWhile py_isspace (rev ?t) \<noteq> []" using assms by (simp add: py_strip_def)
  then have "\<not> py_isspace (hd (dropWhile py_isspace (rev ?t)))" by (rule hd_dropWhile)
  then show "\<not> py_isspace (last (py_strip s))"
    using assms by (simp add: py_strip_def last_rev)
qed

lemma py_strip_idem: "py_strip (py_strip s) = py_strip s"
proof (cases "py_strip s = []")
  case True
  have "py_strip [] = []" by (simp add: py_strip_def)
  with True show ?thesis by simp
next
  case False
  then show ?thesis using py_strip_ends [OF False] by (intro py_strip_fixed)
qed

lemma py_strip_replicate:
  "\<not> py_isspace c \<Longrightarrow> py_strip (replicate n c) = replicate n c"
  by (cases n) (simp_all add: py_strip_def del: replicate.simps)


lemma two_paragraphs_chunks:
  assumes "CHR 0x0A \<notin> set p1" "CHR 0x0A \<notin> set p2"
    and "py_strip p1 \<noteq> []" "py_strip p2 \<noteq> []"
    and "4 * max_tokens < int (length (py_strip p1)) + int (length (py_strip p2))"
  shows "split_text (p1 @ [CHR 0x0A] @ p2) max_tokens overlap =
     [py_strip p1,
      py_strip (overlap_text overlap (py_strip p1) @ [CHR 0x0A] @ py_strip p2)]"
  using assms
  by (simp add: split_text_def py_split_nl_append py_split_nl_no_nl Let_def size_test py_strip_idem)

lemma overlap_text_50: "overlap_text 50 s = drop (length s - 200) s"
  by (auto simp: overlap_text_def py_slice_from_def nat_diff_distrib)

text \<open>
  C9 (as the code has it). A text of two non-blank paragraphs whose stripped lengths add
  up to more than 2048 characters (an estimate above 512 tokens; about 2050 tokens is
  such a text) is split, with \<open>max_tokens = 512\<close> and \<open>overlap = 50\<close>, into exactly two
  chunks, since a paragraph is never split. The first chunk is the first paragraph; the
  second is the last 200 characters of the first chunk (all of it when it is shorter),
  a newline and the second paragraph, stripped. So the second chunk begins with those
  200 characters unless they begin with whitespace.
\<close>

theorem two_paragraphs_two_chunks:
  assumes "CHR 0x0A \<notin> set p1" "CHR 0x0A \<notin> set p2"
    and "py_strip p1 \<noteq> []" "py_strip p2 \<noteq> []"
    and "2048 < length (py_strip p1) + length (py_strip p2)"
  shows "\<exists>c0 c1. split_text (p1 @ [CHR 0x0A] @ p2) 512 50 = [c0, c1] \<and>
     c0 = py_strip p1 \<and>
     c1 = py_strip (drop (length c0 - 200) c0 @ [CHR 0x0A] @ py_strip p2) \<and>
     (\<not> py_isspace (hd (drop (length c0 - 200) c0)) \<longrightarrow>
        c1 = drop (length c0 - 200) c0 @ [CHR 0x0A] @ py_strip p2)"
proof -
  let ?c0 = "py_strip p1"
  let ?ov = "drop (length ?c0 - 200) ?c0"
  have s: "split_text (p1 @ [CHR 0x0A] @ p2) 512 50 =
      [?c0, py_strip (?ov @ [CHR 0x0A] @ py_strip p2)]"
    using two_paragraphs_chunks [OF assms(1-4), of 512 50] assms(5)
    by (simp add: overlap_text_50)
  have "py_strip (?ov @ [CHR 0x0A] @ py_strip p2) = ?ov @ [CHR 0x0A] @ py_strip p2"
    if "\<not> py_isspace (hd ?ov)"
  proof (rule py_strip_fixed)
    show "?ov @ [CHR 0x0A] @ py_strip p2 \<noteq> []" by simp
    have "0 < length ?c0" using assms(3) by simp
    then have "length ?c0 - 200 < length ?c0" by arith
    then have "?ov \<noteq> []" by simp
    then show "\<not> py_isspace (hd (?ov @ [CHR 0x0A] @ py_strip p2))"
      using that by simp
    show "\<not> py_isspace (last (?ov @ [CHR 0x0A] @ py_strip p2))"
      using py_strip_ends(2) [OF assms(4)] assms(4) by simp
  qed
  with s show ?thesis by simp
qed

text \<open>
  C9 as stated fails: two paragraphs of 4100 characters each (8201 characters with the
  newline, about 2050 estimated tokens) do not give four chunks.
\<close>

theorem two_paragraphs_not_four_chunks:
  "\<not> 4 \<le> length (split_text (replicate 4100 CHR ''a'' @ [CHR 0x0A] @ replicate 4100 CHR ''b'') 512 50)"
proof -
  have a: "\<not> py_isspace CHR ''a''" "\<not> py_isspace CHR ''b''"
    by (simp_all add: py_isspace_def)
  have "split_text (replicate 4100 CHR ''a'' @ [CHR 0x0A] @ replicate 4100 CHR ''b'') 512 50 =
     [py_strip (replicate 4100 CHR ''a''),
      py_strip (overlap_text 50 (py_strip (replicate 4100 CHR ''a'')) @ [CHR 0x0A] @
        py_strip (replicate 4100 CHR ''b''))]"
    by (rule two_paragraphs_chunks) (simp_all add: py_strip_replicate a del: replicate.simps replicate_eq_replicate)
  then show ?thesis by simp
qed

theorem two_paragraphs_two_chunks_witness:
  "CHR 0x0A \<notin> set (replicate 4100 CHR ''a'') \<and> CHR 0x0A \<notin> set (replicate 4100 CHR ''b'') \<and>
   py_strip (replicate 4100 CHR ''a'') \<noteq> [] \<and> py_strip (replicate 4100 CHR ''b'') \<noteq> [] \<and>
   2048 < length (py_strip (replicate 4100 CHR ''a'')) + length (py_strip (replicate 4100 CHR ''b'')) \<and>
   length (split_text (replicate 4100 CHR ''a'' @ [CHR 0x0A] @ replicate 4100 CHR ''b'') 512 50) = 2"
proof -
  have a: "\<not> py_isspace CHR ''a''" "\<not> py_isspace CHR ''b''"
    by (simp_all add: py_isspace_def)
  have h1: "CHR 0x0A \<notin> set (replicate 4100 CHR ''a'')" by simp
  have h2: "CHR 0x0A \<notin> set (replicate 4100 CHR ''b'')" by simp
  have h3: "py_strip (replicate 4100 CHR ''a'') \<noteq> []"
    by (simp add: py_strip_replicate a del: replicate.simps)
  have h4: "py_strip (replicate 4100 CHR ''b'') \<noteq> []"
    by (simp add: py_strip_replicate a del: replicate.simps)
  have h5: "2048 < length (py_strip (replicate 4100 CHR ''a'')) + length (py_strip (replicate 4100 CHR ''b''))"
    by (simp add: py_strip_replicate a del: replicate.simps)
  from two_paragraphs_two_chunks [OF h1 h2 h3 h4 h5]
  have "length (split_text (replicate 4100 CHR ''a'' @ [CHR 0x0A] @ replicate 4100 CHR ''b'') 512 50) = 2"
    by auto
  with h1 h2 h3 h4 h5 show ?thesis by blast
qed

subsection \<open>The text normaliser\<close>

lemma strip_prefix_Some: "strip_prefix p s = Some r \<Longrightarrow> s = p @ r"
  by (induction p s rule: strip_prefix.induct) (auto split: if_splits)

lemma url_match_needs_colon: "CHR '':'' \<notin> set s \<Longrightarrow> url_match prev s = None"
  by (auto simp: url_match_def split: option.splits dest!: strip_prefix_Some)

lemma email_match_needs_at:
  assumes "CHR ''@'' \<notin> set s"
  shows "email_match prev s = None"
proof -
  have "char_at s l \<noteq> Some CHR ''@''" for l
  proof (cases "l < length s")
    case True
    then have "s ! l \<in> set s" by simp
    with assms have "s ! l \<noteq> CHR ''@''" by metis
    with True show ?thesis by (simp add: char_at_def)
  next
    case False
    then show ?thesis by (simp add: char_at_def)
  qed
  then show ?thesis by (simp add: email_match_def Let_def)
qed

lemma re_sub_scan_no_match:
  "(\<And>prev u. c \<notin> set u \<Longrightarrow> m prev u = None) \<Longrightarrow> c \<notin> set s \<Longrightarrow>
     re_sub_scan m prev 0 s = s"
  by (induction s arbitrary: prev) auto

lemma set_collapse_ws: "set (collapse_ws s) \<subseteq> insert CHR '' '' (set s)"
proof (induction s rule: collapse_ws.induct)
  case 1
  then show ?case by simp
next
  case (2 c cs)
  then show ?case
    using set_dropWhileD [of _ py_isspace cs] by (auto split: if_splits)
qed

lemma set_py_strip: "set (py_strip s) \<subseteq> set s"
  by (auto simp: py_strip_def dest!: set_dropWhileD)

lemma collapse_ws_hd:
  "s \<noteq> [] \<Longrightarrow> \<not> py_isspace (hd s) \<Longrightarrow> collapse_ws s \<noteq> [] \<and> hd (collapse_ws s) = hd s"
  by (cases s) auto

lemma ws_collapsed_Cons:
  "ws_collapsed (a # s) =
     ((if py_isspace a then a = CHR '' '' \<and> (s = [] \<or> \<not> py_isspace (hd s)) else True) \<and>
      ws_collapsed s)"
  by (cases s) auto

lemma ws_collapsed_collapse: "ws_collapsed (collapse_ws s)"
proof (induction s rule: collapse_ws.induct)
  case 1
  then show ?case by simp
next
  case (2 c cs)
  show ?case
  proof (cases "py_isspace c")
    case True
    let ?d = "dropWhile py_isspace cs"
    have "collapse_ws ?d = [] \<or> \<not> py_isspace (hd (collapse_ws ?d))"
    proof (cases "?d = []")
      case True
      then show ?thesis by (metis collapse_ws.simps(1))
    next
      case False
      then have "\<not> py_isspace (hd ?d)" by (rule hd_dropWhile)
      with False show ?thesis using collapse_ws_hd [of ?d] by simp
    qed
    moreover have "ws_collapsed (collapse_ws ?d)" using 2(1) True by simp
    ultimately show ?thesis using True by (simp add: ws_collapsed_Cons)
  next
    case False
    with 2 show ?thesis by (simp add: ws_collapsed_Cons)
  qed
qed

lemma collapse_ws_fixed: "ws_collapsed s \<Longrightarrow> collapse_ws s = s"
proof (induction s rule: collapse_ws.induct)
  case 1
  then show ?case by simp
next
  case (2 c cs)
  show ?case
  proof (cases "py_isspace c")
    case True
    with 2(3) have c: "c = CHR '' ''" "cs = [] \<or> \<not> py_isspace (hd cs)" "ws_collapsed cs"
      by (simp_all add: ws_collapsed_Cons)
    then have "dropWhile py_isspace cs = cs" by (cases cs) auto
    with True 2 c show ?thesis by simp
  next
    case False
    with 2 show ?thesis by (simp add: ws_collapsed_Cons)
  qed
qed

lemma ws_collapsed_append: "ws_collapsed (xs @ ys) \<Longrightarrow> ws_collapsed xs \<and> ws_collapsed ys"
proof (induction xs)
  case Nil
  then show ?case by simp
next
  case (Cons a xs)
  then show ?case
    by (cases xs) (auto simp: ws_collapsed_Cons split: if_splits)
qed

lemma ws_collapsed_strip: "ws_collapsed s \<Longrightarrow> ws_collapsed (py_strip s)"
proof -
  assume a: "ws_collapsed s"
  let ?t = "dropWhile py_isspace s"
  have "s = takeWhile py_isspace s @ ?t" by simp
  with a have t: "ws_collapsed ?t" using ws_collapsed_append by metis
  have "?t = rev (dropWhile py_isspace (rev ?t)) @ rev (takeWhile py_isspace (rev ?t))"
    by (metis rev_append rev_rev_ident takeWhile_dropWhile_id)
  with t have "ws_collapsed (rev (dropWhile py_isspace (rev ?t)))"
    using ws_collapsed_append by metis
  then show ?thesis by (simp add: py_strip_def)
qed

lemma preprocess_plain:
  assumes "CHR '':'' \<notin> set t" "CHR ''@'' \<notin> set t"
  shows "preprocess_text t = py_strip (collapse_ws t)"
proof -
  have c: "CHR '':'' \<notin> set (collapse_ws t)" "CHR ''@'' \<notin> set (collapse_ws t)"
    using assms set_collapse_ws [of t] by auto
  have u: "re_sub_remove url_match (collapse_ws t) = collapse_ws t"
    unfolding re_sub_remove_def
    by (rule re_sub_scan_no_match [where c = "CHR '':''"]) (simp_all add: url_match_needs_colon c)
  have e: "re_sub_remove email_match (collapse_ws t) = collapse_ws t"
    unfolding re_sub_remove_def
    by (rule re_sub_scan_no_match [where c = "CHR ''@''"]) (simp_all add: email_match_needs_at c)
  show ?thesis by (simp add: preprocess_text_def u e)
qed

text \<open>A text without \<open>:\<close> and \<open>@\<close> holds no URL and no e-mail address.\<close>

lemma preprocess_plain_idempotent:
  assumes "CHR '':'' \<notin> set t" "CHR ''@'' \<notin> set t"
  shows "preprocess_text t = py_strip (collapse_ws t) \<and>
     ws_collapsed (preprocess_text t) \<and>
     preprocess_text (preprocess_text t) = preprocess_text t"
proof -
  let ?u = "py_strip (collapse_ws t)"
  have p: "preprocess_text t = ?u" by (rule preprocess_plain [OF assms])
  have w: "ws_collapsed ?u" by (intro ws_collapsed_strip ws_collapsed_collapse)
  have s: "set ?u \<subseteq> insert CHR '' '' (set t)"
    using set_py_strip [of "collapse_ws t"] set_collapse_ws [of t] by blast
  then have n: "CHR '':'' \<notin> set ?u" "CHR ''@'' \<notin> set ?u" using assms by auto
  have "preprocess_text ?u = py_strip (collapse_ws ?u)" by (rule preprocess_plain [OF n])
  also have "\<dots> = py_strip ?u" by (simp add: collapse_ws_fixed [OF w])
  also have "\<dots> = ?u" by (rule py_strip_idem)
  finally show ?thesis using p w by simp
qed


























subsection \<open>Invariants are kept by every operation\<close>

lemma update_fresh: "k \<notin> fst ` set al \<Longrightarrow> AList.update k v al = al @ [(k, v)]"
  by (induction al) auto

lemma deref_update:
  "deref (objs[a := v]) b = (if b = a \<and> a < length objs then v else deref objs b)"
  by (auto simp: deref_def)

lemma deref_append: "b < length objs \<Longrightarrow> deref (objs @ ys) b = deref objs b"
  by (simp add: deref_def nth_append)

lemma active_docs_props:
  "active_docs st ds = Inr act \<Longrightarrow>
     map (\<lambda>(i, d, a). (i, d)) act = filter (\<lambda>(i, d). \<not> is_deleted st i) ds \<and>
     list_all (\<lambda>(i, d, a). map_of (metadata st) i = Some a) act"
proof (induction ds arbitrary: act)
  case Nil
  then show ?case by simp
next
  case (Cons x ds)
  obtain i d where x: "x = (i, d)" by (cases x)
  show ?case
  proof (cases "is_deleted st i")
    case True
    with Cons x show ?thesis by simp
  next
    case False
    with Cons.prems x obtain a xs where
      m: "map_of (metadata st) i = Some a" and xs: "active_docs st ds = Inr xs"
      and a: "act = (i, d, a) # xs"
      by (auto split: option.splits sum.splits)
    from Cons.IH [OF xs] show ?thesis using False x m a by simp
  qed
qed

lemma active_docs_keys:
  assumes "active_docs st ds = Inr act"
  shows "map fst act = map fst (filter (\<lambda>(i, d). \<not> is_deleted st i) ds)"
proof -
  have "map fst act = map fst (map (\<lambda>(i, d, a). (i, d)) act)"
    by (simp add: case_prod_beta comp_def)
  then show ?thesis using active_docs_props [OF assms] by simp
qed

lemma active_docs_addresses:
  assumes "active_docs st ds = Inr act" and "heap_ok st" and "distinct (map fst ds)"
  shows "list_all (\<lambda>(i, d, a). a < length (objects st)) act"
    and "distinct (map (\<lambda>(i, d, a). a) act)"
    and "distinct (map fst act)"
proof -
  have mem: "(i, a) \<in> set (metadata st)" if "(i, d, a) \<in> set act" for i d a
  proof -
    from that active_docs_props [OF assms(1)] have "map_of (metadata st) i = Some a"
      by (auto simp: list_all_iff)
    then show ?thesis by (rule map_of_SomeD)
  qed
  have valid: "\<forall>(i, a)\<in>set (metadata st). a < length (objects st)"
    using assms(2) by (simp add: heap_ok_def list_all_iff)
  show "list_all (\<lambda>(i, d, a). a < length (objects st)) act"
    unfolding list_all_iff using mem valid by fastforce
  show d: "distinct (map fst act)"
    using assms(3) by (simp add: active_docs_keys [OF assms(1)] distinct_map_filter)
  have inj_md: "inj_on snd (set (metadata st))"
    using assms(2) by (simp add: heap_ok_def distinct_map)
  have inj_act: "inj_on fst (set act)" and da: "distinct act"
    using d by (simp_all add: distinct_map)
  have "inj_on (\<lambda>(i, d, a). a) (set act)"
  proof (rule inj_onI)
    fix x y assume x: "x \<in> set act" and y: "y \<in> set act"
      and e: "(case x of (i, d, a) \<Rightarrow> a) = (case y of (i, d, a) \<Rightarrow> a)"
    obtain i d a where xe: "x = (i, d, a)" by (cases x)
    obtain j d' b where ye: "y = (j, d', b)" by (cases y)
    from e xe ye have ab: "a = b" by simp
    have "(i, a) \<in> set (metadata st)" "(j, a) \<in> set (metadata st)"
      using mem x y xe ye ab by auto
    with inj_md have "(i, a) = (j, a)" unfolding inj_on_def by fastforce
    then have "fst x = fst y" using xe ye by simp
    from inj_onD [OF inj_act this x y] show "x = y" .
  qed
  with da show "distinct (map (\<lambda>(i, d, a). a) act)" by (simp add: distinct_map)
qed

lemma embedded_Cons [simp]:
  "embedded emb ((i, d) # ds) = map emb (chunks d) @ embedded emb ds"
  by (simp add: embedded_def)

lemma embedded_Nil [simp]: "embedded emb [] = []"
  by (simp add: embedded_def)

lemma embedded_append [simp]: "embedded emb (xs @ ys) = embedded emb xs @ embedded emb ys"
  by (simp add: embedded_def)

lemma rebuilt_metadata_lookup:
  "map_of (rebuilt_metadata m start n) ''start_index'' = Some (PInt (int start))"
  "map_of (rebuilt_metadata m start n) ''end_index'' = Some (PInt (int start + int n - 1))"
  "map_of (rebuilt_metadata m start n) ''deleted'' = None"
  "map_of (rebuilt_metadata m start n) ''deleted_at'' = None"
  by (simp_all add: rebuilt_metadata_def delete_conv' update_conv')

lemma rebuild_loop_failure:
  assumes "rebuild_loop enc act st nm nd = (Inl e, st')"
  shows "documents st' = documents st \<and> metadata st' = metadata st \<and>
     vector_dim st' = vector_dim st \<and> model_name st' = model_name st \<and>
     (\<exists>pre rest. act = pre @ rest \<and> rest \<noteq> [] \<and>
        index st' = index st @
          concat (map (\<lambda>(i, d, a). case enc (chunks d) of Some vs \<Rightarrow> vs | None \<Rightarrow> []) pre))"
  using assms
proof (induction act arbitrary: st nm nd)
  case Nil
  then show ?case by simp
next
  case (Cons x act)
  obtain i d a where x: "x = (i, d, a)" by (cases x)
  have stay: ?case if "st' = st"
  proof -
    have "x # act = [] @ (x # act) \<and> x # act \<noteq> [] \<and>
        index st = index st @
          concat (map (\<lambda>(i, d, a). case enc (chunks d) of Some vs \<Rightarrow> vs | None \<Rightarrow> []) [])"
      by simp
    with that show ?thesis by blast
  qed
  show ?case
  proof (cases "enc (chunks d)")
    case None
    with Cons.prems(1) x have "st' = st" by simp
    then show ?thesis by (rule stay)
  next
    case (Some vs)
    show ?thesis
    proof (cases "faiss_add (vector_dim st) (index st) vs")
      case (Inl e')
      with Cons.prems(1) x Some have "st' = st" by simp
      then show ?thesis by (rule stay)
    next
      case (Inr idx)
      let ?m' = "rebuilt_metadata (deref (objects st) a) (length (index st)) (length (chunks d))"
      let ?st2 = "st\<lparr>index := idx, objects := (objects st)[a := ?m'],
         id_to_index := map_chunks i (length (index st)) (length (chunks d)) (id_to_index st)\<rparr>"
      have idx: "idx = index st @ vs" using Inr by (rule faiss_add_Inr)
      have loop: "rebuild_loop enc act ?st2 (AList.update i a nm) (AList.update i d nd) =
          (Inl e, st')"
        using Cons.prems(1) x Some Inr by (simp add: Let_def)
      from Cons.IH [OF loop] obtain pre rest where
        a: "documents st' = documents ?st2" "metadata st' = metadata ?st2"
          "vector_dim st' = vector_dim ?st2" "model_name st' = model_name ?st2"
        and p: "act = pre @ rest" "rest \<noteq> []"
          "index st' = index ?st2 @
            concat (map (\<lambda>(i, d, a). case enc (chunks d) of Some vs \<Rightarrow> vs | None \<Rightarrow> []) pre)"
        by blast
      have e: "\<exists>pre rest. x # act = pre @ rest \<and> rest \<noteq> [] \<and>
        index st' = index st @
          concat (map (\<lambda>(i, d, a). case enc (chunks d) of Some vs \<Rightarrow> vs | None \<Rightarrow> []) pre)"
      proof (intro exI conjI)
        show "x # act = (x # pre) @ rest" using p(1) by simp
        show "rest \<noteq> []" by (rule p(2))
        show "index st' = index st @
          concat (map (\<lambda>(i, d, a). case enc (chunks d) of Some vs \<Rightarrow> vs | None \<Rightarrow> [])
            (x # pre))"
          using p(3) idx x Some by simp
      qed
      have b: "documents st' = documents st" "metadata st' = metadata st"
        "vector_dim st' = vector_dim st" "model_name st' = model_name st"
        using a by simp_all
      from b e show ?thesis by blast
    qed
  qed
qed

lemma rebuild_index_failure:
  assumes "rebuild_index enc st = (False, st')"
  shows "documents st' = documents st \<and> metadata st' = metadata st \<and>
     vector_dim st' = vector_dim st \<and> model_name st' = model_name st \<and>
     (st' = st \<or>
      (\<exists>act pre rest. active_docs st (documents st) = Inr act \<and>
         act = pre @ rest \<and> rest \<noteq> [] \<and>
         index st' =
           concat (map (\<lambda>(i, d, a). case enc (chunks d) of Some vs \<Rightarrow> vs | None \<Rightarrow> []) pre)))"
proof (cases "active_docs st (documents st)")
  case (Inl e)
  with assms have "st' = st" by (simp add: rebuild_index_def)
  then show ?thesis by simp
next
  case (Inr act)
  let ?st0 = "st\<lparr>index := [], id_to_index := []\<rparr>"
  obtain res st1 where l: "rebuild_loop enc act ?st0 [] [] = (res, st1)"
    by (cases "rebuild_loop enc act ?st0 [] []")
  with assms Inr obtain e where e: "res = Inl e" and s: "st1 = st'"
    by (cases res) (auto simp: rebuild_index_def)
  from rebuild_loop_failure [OF l [unfolded e s]] obtain pre rest where
    a: "documents st' = documents ?st0" "metadata st' = metadata ?st0"
      "vector_dim st' = vector_dim ?st0" "model_name st' = model_name ?st0"
    and p: "act = pre @ rest" "rest \<noteq> []"
      "index st' = index ?st0 @
         concat (map (\<lambda>(i, d, a). case enc (chunks d) of Some vs \<Rightarrow> vs | None \<Rightarrow> []) pre)"
    by blast
  have "\<exists>act pre rest. active_docs st (documents st) = Inr act \<and>
         act = pre @ rest \<and> rest \<noteq> [] \<and>
         index st' =
           concat (map (\<lambda>(i, d, a). case enc (chunks d) of Some vs \<Rightarrow> vs | None \<Rightarrow> []) pre)"
    using Inr p by (intro exI [of _ act] exI [of _ pre] exI [of _ rest]) simp
  moreover have "documents st' = documents st" "metadata st' = metadata st"
    "vector_dim st' = vector_dim st" "model_name st' = model_name st"
    using a by simp_all
  ultimately show ?thesis by blast
qed

lemma rebuild_loop_success:
  assumes "agrees emb enc"
    and "rebuild_loop enc act st nm nd = (Inr (nm', nd'), st')"
    and "distinct (map fst act)"
    and "distinct (map (\<lambda>(i, d, a). a) act)"
    and "list_all (\<lambda>(i, d, a). a < length (objects st)) act"
    and "fst ` set act \<inter> fst ` set nm = {}" "fst ` set act \<inter> fst ` set nd = {}"
  shows "nd' = nd @ map (\<lambda>(i, d, a). (i, d)) act \<and>
     nm' = nm @ map (\<lambda>(i, d, a). (i, a)) act \<and>
     index st' = index st @ embedded emb (map (\<lambda>(i, d, a). (i, d)) act) \<and>
     vector_dim st' = vector_dim st \<and> model_name st' = model_name st \<and>
     length (objects st') = length (objects st) \<and>
     (\<forall>b. b \<notin> (\<lambda>(i, d, a). a) ` set act \<longrightarrow> deref (objects st') b = deref (objects st) b) \<and>
     ranges_from (length (index st)) (map (\<lambda>(i, d, a). (i, d)) act)
       (map (\<lambda>(i, d, a). (i, deref (objects st') a)) act) \<and>
     list_all (\<lambda>(i, d, a). map_of (deref (objects st') a) ''deleted'' = None \<and>
                 map_of (deref (objects st') a) ''deleted_at'' = None) act"
  using assms(2-)
proof (induction act arbitrary: st nm nd)
  case Nil
  then show ?case by simp
next
  case (Cons x act)
  obtain i d a where x: "x = (i, d, a)" by (cases x)
  from Cons.prems(1) x obtain vs where vs: "enc (chunks d) = Some vs"
    by (cases "enc (chunks d)") auto
  with assms(1) have vs_emb: "vs = map emb (chunks d)"
    by (metis agrees_def option.distinct(1) option.inject)
  from Cons.prems(1) x vs obtain idx where
    add: "faiss_add (vector_dim st) (index st) vs = Inr idx"
    by (cases "faiss_add (vector_dim st) (index st) vs") auto
  have idx: "idx = index st @ vs" using add by (rule faiss_add_Inr)
  let ?m' = "rebuilt_metadata (deref (objects st) a) (length (index st)) (length (chunks d))"
  let ?st2 = "st\<lparr>index := idx, objects := (objects st)[a := ?m'],
     id_to_index := map_chunks i (length (index st)) (length (chunks d)) (id_to_index st)\<rparr>"
  have inm: "i \<notin> fst ` set nm" and ind: "i \<notin> fst ` set nd"
    using Cons.prems(5,6) x by auto
  have nm2: "AList.update i a nm = nm @ [(i, a)]" using inm by (rule update_fresh)
  have nd2: "AList.update i d nd = nd @ [(i, d)]" using ind by (rule update_fresh)
  have loop: "rebuild_loop enc act ?st2 (nm @ [(i, a)]) (nd @ [(i, d)]) = (Inr (nm', nd'), st')"
    using Cons.prems(1) x vs add nm2 nd2 by (simp add: Let_def)
  have d: "distinct (map fst act)" and ni: "i \<notin> fst ` set act"
    using Cons.prems(2) x by auto
  have da: "distinct (map (\<lambda>(i, d, a). a) act)" and na: "a \<notin> (\<lambda>(i, d, a). a) ` set act"
    using Cons.prems(3) x by auto
  have al: "a < length (objects st)"
    and va: "list_all (\<lambda>(i, d, a). a < length (objects ?st2)) act"
    using Cons.prems(4) x by simp_all
  have d1: "fst ` set act \<inter> fst ` set (nm @ [(i, a)]) = {}"
    using Cons.prems(5) ni by auto
  have d2: "fst ` set act \<inter> fst ` set (nd @ [(i, d)]) = {}"
    using Cons.prems(6) ni by auto
  from Cons.IH [OF loop d da va d1 d2] have
    a: "nd' = (nd @ [(i, d)]) @ map (\<lambda>(i, d, a). (i, d)) act"
      "nm' = (nm @ [(i, a)]) @ map (\<lambda>(i, d, a). (i, a)) act"
      "index st' = index ?st2 @ embedded emb (map (\<lambda>(i, d, a). (i, d)) act)"
      "vector_dim st' = vector_dim ?st2" "model_name st' = model_name ?st2"
      "length (objects st') = length (objects ?st2)"
    and keep: "\<forall>b. b \<notin> (\<lambda>(i, d, a). a) ` set act \<longrightarrow>
        deref (objects st') b = deref (objects ?st2) b"
    and rf: "ranges_from (length (index ?st2)) (map (\<lambda>(i, d, a). (i, d)) act)
       (map (\<lambda>(i, d, a). (i, deref (objects st') a)) act)"
    and nodel: "list_all (\<lambda>(i, d, a). map_of (deref (objects st') a) ''deleted'' = None \<and>
                 map_of (deref (objects st') a) ''deleted_at'' = None) act"
    by blast+
  have here: "deref (objects st') a = ?m'"
    using keep na al by (simp add: deref_update)
  have len: "length (index ?st2) = length (index st) + length (chunks d)"
    by (simp add: idx vs_emb)
  have r: "ranges_from (length (index st)) (map (\<lambda>(i, d, a). (i, d)) (x # act))
      (map (\<lambda>(i, d, a). (i, deref (objects st') a)) (x # act))"
    using rf len by (simp add: x here rebuilt_metadata_lookup)
  have f: "list_all (\<lambda>(i, d, a). map_of (deref (objects st') a) ''deleted'' = None \<and>
                 map_of (deref (objects st') a) ''deleted_at'' = None) (x # act)"
    using nodel by (simp add: x here rebuilt_metadata_lookup)
  have k: "\<forall>b. b \<notin> (\<lambda>(i, d, a). a) ` set (x # act) \<longrightarrow>
      deref (objects st') b = deref (objects st) b"
    using keep by (simp add: x deref_update)
  show ?case using a r f k by (simp add: x idx vs_emb)
qed

lemma map_of_filter_keys:
  "map_of (filter (\<lambda>(i, d). Q i) xs) k = (if Q k then map_of xs k else None)"
  by (induction xs) auto

lemma rebuild_index_success:
  assumes "agrees emb enc" and "distinct (map fst (documents st))" and "heap_ok st"
    and "rebuild_index enc st = (True, st')"
  shows "documents st' = filter (\<lambda>(i, d). \<not> is_deleted st i) (documents st)"
    and "map fst (metadata st') = map fst (documents st')"
    and "index st' = embedded emb (documents st')"
    and "ranges_from 0 (documents st') (meta_view st')"
    and "list_all (\<lambda>(i, m). map_of m ''deleted'' = None \<and> map_of m ''deleted_at'' = None)
           (meta_view st')"
    and "heap_ok st'"
proof -
  let ?st0 = "st\<lparr>index := [], id_to_index := []\<rparr>"
  from assms(4) obtain act where act: "active_docs st (documents st) = Inr act"
    by (cases "active_docs st (documents st)") (auto simp: rebuild_index_def)
  obtain res st1 where l: "rebuild_loop enc act ?st0 [] [] = (res, st1)"
    by (cases "rebuild_loop enc act ?st0 [] []")
  with assms(4) act obtain nm nd where r: "res = Inr (nm, nd)"
    and s: "st' = st1\<lparr>metadata := nm, documents := nd\<rparr>"
    by (cases res) (auto simp: rebuild_index_def)
  note ad = active_docs_addresses [OF act assms(3,2)]
  have va: "list_all (\<lambda>(i, d, a). a < length (objects ?st0)) act"
    using ad(1) by simp
  from rebuild_loop_success [OF assms(1) l [unfolded r] ad(3) ad(2) va]
  have nd: "nd = map (\<lambda>(i, d, a). (i, d)) act"
    and nm: "nm = map (\<lambda>(i, d, a). (i, a)) act"
    and ix: "index st1 = embedded emb (map (\<lambda>(i, d, a). (i, d)) act)"
    and len: "length (objects st1) = length (objects st)"
    and rf: "ranges_from 0 (map (\<lambda>(i, d, a). (i, d)) act)
       (map (\<lambda>(i, d, a). (i, deref (objects st1) a)) act)"
    and nodel: "list_all (\<lambda>(i, d, a). map_of (deref (objects st1) a) ''deleted'' = None \<and>
                 map_of (deref (objects st1) a) ''deleted_at'' = None) act"
    by simp_all
  have mv: "meta_view st' = map (\<lambda>(i, d, a). (i, deref (objects st1) a)) act"
    by (simp add: meta_view_def s nm case_prod_beta comp_def)
  show "documents st' = filter (\<lambda>(i, d). \<not> is_deleted st i) (documents st)"
    using nd s active_docs_props [OF act] by simp
  show "map fst (metadata st') = map fst (documents st')"
    by (simp add: s nm nd case_prod_beta comp_def)
  show "index st' = embedded emb (documents st')"
    using ix s nd by simp
  show "ranges_from 0 (documents st') (meta_view st')"
    using rf mv s nd by simp
  show "list_all (\<lambda>(i, m). map_of m ''deleted'' = None \<and> map_of m ''deleted_at'' = None)
           (meta_view st')"
    using nodel by (simp add: mv list_all_iff case_prod_beta)
  have sn: "map snd nm = map (\<lambda>(i, d, a). a) act"
    by (simp add: nm case_prod_beta comp_def)
  have "list_all (\<lambda>(i, a). a < length (objects st1)) nm"
    using ad(1) len by (simp add: nm list_all_iff case_prod_beta)
  moreover have "distinct (map snd nm)"
    using ad(2) by (simp only: sn)
  ultimately show "heap_ok st'"
    by (simp add: heap_ok_def s)
qed

lemma ranges_from_keys: "ranges_from off ds ms \<Longrightarrow> map fst ms = map fst ds"
  by (induction off ds ms rule: ranges_from.induct) auto

lemma ranges_from_snoc:
  "ranges_from off ds ms \<Longrightarrow>
   map_of m ''start_index'' = Some (PInt (int (off + length (embedded emb ds)))) \<Longrightarrow>
   map_of m ''end_index'' =
     Some (PInt (int (off + length (embedded emb ds)) + int (length (chunks d)) - 1)) \<Longrightarrow>
   ranges_from off (ds @ [(i, d)]) (ms @ [(i, m)])"
proof (induction off ds ms rule: ranges_from.induct)
  case (1 off)
  then show ?case by simp
next
  case (2 off i' d' ds j m' ms)
  then show ?case by (simp add: add.assoc)
qed simp_all

lemma ranges_from_heap_cong:
  "ranges_from off ds (map (\<lambda>(j, b). (j, deref objs b)) md) \<Longrightarrow>
   list_all (\<lambda>(j, b).
       map_of (deref objs' b) ''start_index'' = map_of (deref objs b) ''start_index'' \<and>
       map_of (deref objs' b) ''end_index'' = map_of (deref objs b) ''end_index'') md \<Longrightarrow>
   ranges_from off ds (map (\<lambda>(j, b). (j, deref objs' b)) md)"
proof (induction md arbitrary: off ds)
  case Nil
  then show ?case by simp
next
  case (Cons x md)
  obtain j b where x: "x = (j, b)" by (cases x)
  from Cons.prems(1) x obtain i d ds' where ds: "ds = (i, d) # ds'" by (cases ds) auto
  from Cons.prems x ds have
    "ranges_from (off + length (chunks d)) ds' (map (\<lambda>(j, b). (j, deref objs b)) md)"
    and "list_all (\<lambda>(j, b).
       map_of (deref objs' b) ''start_index'' = map_of (deref objs b) ''start_index'' \<and>
       map_of (deref objs' b) ''end_index'' = map_of (deref objs b) ''end_index'') md"
    by simp_all
  from Cons.IH [OF this] show ?case using Cons.prems x ds by simp
qed

lemma pass_dict_own:
  "\<forall>a. arg \<noteq> HeldDict a \<Longrightarrow> pass_dict objs arg = (length objs, objs @ [arg_dict objs arg])"
  by (cases arg) (simp_all add: pass_dict_def arg_dict_def)

lemma meta_view_snoc:
  assumes "list_all (\<lambda>(j, b). b < length objs) md"
  shows "map (\<lambda>(j, b). (j, deref (objs @ [m]) b)) (md @ [(i, length objs)]) =
     map (\<lambda>(j, b). (j, deref objs b)) md @ [(i, m)]"
proof -
  have "map (\<lambda>(j, b). (j, deref (objs @ [m]) b)) md = map (\<lambda>(j, b). (j, deref objs b)) md"
    using assms by (auto simp: list_all_iff deref_append)
  then show ?thesis by (simp add: deref_def)
qed

lemma add_document_inv:
  assumes "agrees emb enc" "catalog_ok st" "heap_ok st" "layout_ok emb st"
    and "\<forall>a. arg \<noteq> HeldDict a"
  shows "catalog_ok (snd (add_document enc now st i txt arg)) \<and>
     heap_ok (snd (add_document enc now st i txt arg)) \<and>
     layout_ok emb (snd (add_document enc now st i txt arg))"
proof -
  obtain ok st' where r: "add_document enc now st i txt arg = (ok, st')"
    by (cases "add_document enc now st i txt arg")
  let ?cs = "split_text (preprocess_text txt) 512 50"
  let ?d = "\<lparr>doc_text = txt, processed_text = preprocess_text txt, chunks = ?cs,
      chunk_count = length ?cs\<rparr>"
  let ?m = "store_metadata (arg_dict (objects st) arg) i (length ?cs) (length (index st)) now
      (model_name st)"
  show ?thesis
  proof (cases "i \<in> fst ` set (documents st) \<or> \<not> ok")
    case True
    from add_document_unchanged [OF r True] r assms show ?thesis by simp
  next
    case False
    then have fresh: "i \<notin> fst ` set (documents st)" and ok: "ok" by simp_all
    from add_document_success [OF fresh r [unfolded eqTrueI [OF ok]]] obtain vs a objs1 where
      vs: "enc ?cs = Some vs" "index st' = index st @ vs"
      and p: "pass_dict (objects st) arg = (a, objs1)"
      and ds0: "documents st' = AList.update i ?d (documents st)"
      and md0: "metadata st' = AList.update i a (metadata st)"
      and ob0: "objects st' = objs1[a := ?m]"
      by blast
    from vs(1) assms(1) have vs_emb: "vs = map emb ?cs"
      by (metis agrees_def option.distinct(1) option.inject)
    from p pass_dict_own [OF assms(5), of "objects st"]
    have a: "a = length (objects st)" and o1: "objs1 = objects st @ [arg_dict (objects st) arg]"
      by simp_all
    have ob: "objects st' = objects st @ [?m]"
      using ob0 a o1 by simp
    have k: "map fst (metadata st) = map fst (documents st)"
      and dist: "distinct (map fst (documents st))"
      using assms(2) by (simp_all add: catalog_ok_def)
    have fresh': "i \<notin> fst ` set (metadata st)"
      using fresh arg_cong [OF k, of set] by simp
    have ds: "documents st' = documents st @ [(i, ?d)]"
      using ds0 fresh by (simp add: update_fresh)
    have md: "metadata st' = metadata st @ [(i, length (objects st))]"
      using md0 fresh' a by (simp add: update_fresh)
    have valid: "list_all (\<lambda>(j, b). b < length (objects st)) (metadata st)"
      and da: "distinct (map snd (metadata st))"
      using assms(3) by (simp_all add: heap_ok_def)
    have mv: "meta_view st' = meta_view st @ [(i, ?m)]"
      unfolding meta_view_def ob md by (rule meta_view_snoc [OF valid])
    have c: "catalog_ok st'"
      using k dist fresh ds md by (simp add: catalog_ok_def)
    have "length (objects st) \<notin> snd ` set (metadata st)"
      using valid by (auto simp: list_all_iff)
    then have h: "heap_ok st'"
      using valid da by (auto simp: heap_ok_def md ob list_all_iff)
    have rf: "ranges_from 0 (documents st) (meta_view st)"
      and ix: "index st = embedded emb (documents st)"
      using assms(4) by (simp_all add: layout_ok_def)
    have "ranges_from 0 (documents st @ [(i, ?d)]) (meta_view st @ [(i, ?m)])"
      using rf by (rule ranges_from_snoc [where emb = emb])
        (simp_all add: store_metadata_reserved ix [symmetric])
    moreover have "index st' = embedded emb (documents st @ [(i, ?d)])"
      using vs(2) vs_emb ix by simp
    ultimately have l: "layout_ok emb st'" using ds mv by (simp add: layout_ok_def)
    from c h l r show ?thesis by simp
  qed
qed

lemma delete_document_cases:
  assumes "delete_document now st i = (ok, st')"
  shows "st' = st \<or>
     (\<exists>a. st' = st\<lparr>objects :=
                 (objects st)
                   [a := AList.update ''deleted_at'' (PStr now)
                           (AList.update ''deleted'' (PBool True) (deref (objects st) a))]\<rparr>)"
  using assms by (auto simp: delete_document_def split: if_splits option.splits)

lemma delete_document_inv:
  assumes "catalog_ok st" "heap_ok st" "layout_ok emb st"
  shows "catalog_ok (snd (delete_document now st i)) \<and>
     heap_ok (snd (delete_document now st i)) \<and>
     layout_ok emb (snd (delete_document now st i))"
proof -
  obtain ok st' where r: "delete_document now st i = (ok, st')"
    by (cases "delete_document now st i")
  from delete_document_cases [OF r] show ?thesis
  proof
    assume "st' = st"
    with r assms show ?thesis by simp
  next
    assume "\<exists>a. st' = st\<lparr>objects :=
                 (objects st)
                   [a := AList.update ''deleted_at'' (PStr now)
                           (AList.update ''deleted'' (PBool True) (deref (objects st) a))]\<rparr>"
    then obtain a where s: "st' = st\<lparr>objects :=
                 (objects st)
                   [a := AList.update ''deleted_at'' (PStr now)
                           (AList.update ''deleted'' (PBool True) (deref (objects st) a))]\<rparr>"
      by blast
    have c: "catalog_ok st'" using assms(1) s by (simp add: catalog_ok_def)
    have h: "heap_ok st'" using assms(2) s by (simp add: heap_ok_def)
    have rf: "ranges_from 0 (documents st) (map (\<lambda>(j, b). (j, deref (objects st) b)) (metadata st))"
      using assms(3) by (simp add: layout_ok_def meta_view_def)
    have "ranges_from 0 (documents st)
        (map (\<lambda>(j, b). (j, deref (objects st') b)) (metadata st))"
      using rf by (rule ranges_from_heap_cong)
        (simp add: s list_all_iff case_prod_beta deref_update update_conv')
    then have l: "layout_ok emb st'"
      using assms(3) s by (simp add: layout_ok_def meta_view_def)
    from c h l r show ?thesis by simp
  qed
qed

lemma rebuild_index_inv:
  assumes "agrees emb enc" "catalog_ok st" "heap_ok st" "fst (rebuild_index enc st)"
  shows "catalog_ok (snd (rebuild_index enc st)) \<and> heap_ok (snd (rebuild_index enc st)) \<and>
     layout_ok emb (snd (rebuild_index enc st))"
proof -
  from assms(4) have r: "rebuild_index enc st = (True, snd (rebuild_index enc st))"
    by (cases "rebuild_index enc st") simp
  have dist: "distinct (map fst (documents st))"
    using assms(2) by (simp add: catalog_ok_def)
  note s = rebuild_index_success [OF assms(1) dist assms(3) r]
  have "distinct (map fst (documents (snd (rebuild_index enc st))))"
    using dist by (simp add: s(1) distinct_map_filter)
  with s show ?thesis by (simp add: catalog_ok_def layout_ok_def)
qed

lemma empty_store_ok:
  "catalog_ok (empty_store vd name)" "heap_ok (empty_store vd name)"
  "layout_ok emb (empty_store vd name)"
  by (simp_all add: catalog_ok_def heap_ok_def layout_ok_def meta_view_def empty_store_def)

lemma own_dict_add: "own_dict (enc, now, AddDocument i body arg) \<Longrightarrow> \<forall>a. arg \<noteq> HeldDict a"
  by (cases arg) simp_all

lemma run_inv:
  "list_all (\<lambda>c. agrees emb (fst c)) calls \<Longrightarrow> rebuilds_succeed st calls \<Longrightarrow>
   list_all own_dict calls \<Longrightarrow> catalog_ok st \<Longrightarrow> heap_ok st \<Longrightarrow> layout_ok emb st \<Longrightarrow>
   catalog_ok (run st calls) \<and> heap_ok (run st calls) \<and> layout_ok emb (run st calls)"
proof (induction calls arbitrary: st)
  case Nil
  then show ?case by (simp add: run_def)
next
  case (Cons c calls)
  obtain enc now op where c: "c = (enc, now, op)" by (cases c)
  have ag: "agrees emb enc" and rest: "list_all (\<lambda>c. agrees emb (fst c)) calls"
    using Cons.prems(1) c by simp_all
  have own: "own_dict c" and own_rest: "list_all own_dict calls"
    using Cons.prems(3) by simp_all
  have "rebuilds_succeed (step st c) calls \<and> catalog_ok (step st c) \<and> heap_ok (step st c) \<and>
      layout_ok emb (step st c)"
  proof (cases op)
    case (AddDocument i body arg)
    with own c have "\<forall>a. arg \<noteq> HeldDict a" by (simp add: own_dict_add)
    from add_document_inv [OF ag Cons.prems(4,5,6) this] Cons.prems(2) c AddDocument
    show ?thesis by simp
  next
    case (DeleteDocument i)
    from delete_document_inv [OF Cons.prems(4,5,6)] Cons.prems(2) c DeleteDocument
    show ?thesis by simp
  next
    case RebuildIndex
    with Cons.prems(2) c have ok: "fst (rebuild_index enc st)"
      and r: "rebuilds_succeed (snd (rebuild_index enc st)) calls"
      by simp_all
    from rebuild_index_inv [OF ag Cons.prems(4,5) ok] r
    show ?thesis using RebuildIndex c by simp
  qed
  with Cons.IH [OF rest _ own_rest]
  have "catalog_ok (run (step st c) calls) \<and> heap_ok (run (step st c) calls) \<and>
      layout_ok emb (run (step st c) calls)"
    by blast
  then show ?case by (simp add: run_def)
qed

lemma range_of_entry:
  "map_of m ''start_index'' = Some (PInt s) \<Longrightarrow> map_of m ''end_index'' = Some (PInt e) \<Longrightarrow>
   range_of m = {s..e}"
  by (simp add: range_of_def)

lemma ranges_from_union:
  "ranges_from off ds ms \<Longrightarrow>
   (\<Union>(j, m)\<in>set ms. range_of m) = {int off ..< int off + int (length (embedded emb ds))}"
proof (induction off ds ms rule: ranges_from.induct)
  case (1 off)
  then show ?case by simp
next
  case (2 off i d ds j m ms)
  then have r: "range_of m = {int off .. int off + int (length (chunks d)) - 1}"
    by (simp add: range_of_entry)
  from 2 have u: "(\<Union>(j, m)\<in>set ms. range_of m) =
      {int (off + length (chunks d)) ..<
       int (off + length (chunks d)) + int (length (embedded emb ds))}"
    by simp
  show ?case using r u by (auto simp: embedded_def)
qed simp_all

lemma ranges_from_bounds:
  assumes "ranges_from off ds ms" "(j, m) \<in> set ms"
  shows "range_of m \<subseteq> {int off ..< int off + int (length (embedded emb ds))}"
  using ranges_from_union [OF assms(1), of emb] assms(2) by blast

lemma ranges_from_disjoint:
  "ranges_from off ds ms \<Longrightarrow> distinct (map fst ms) \<Longrightarrow> (i, m) \<in> set ms \<Longrightarrow>
   (j, m') \<in> set ms \<Longrightarrow> i \<noteq> j \<Longrightarrow> range_of m \<inter> range_of m' = {}"
proof (induction off ds ms rule: ranges_from.induct)
  case (1 off)
  then show ?case by simp
next
  case (2 off i0 d ds j0 m0 ms)
  have r: "range_of m0 = {int off .. int off + int (length (chunks d)) - 1}"
    using 2(2) by (simp add: range_of_entry)
  have tl: "ranges_from (off + length (chunks d)) ds ms" using 2(2) by simp
  have far: "range_of x \<inter> range_of m0 = {}" if "(k, x) \<in> set ms" for k x
    using ranges_from_bounds [OF tl that, where emb = "\<lambda>_. []"] r by auto
  consider "(i, m) \<in> set ms" "(j, m') \<in> set ms"
    | "(i, m) = (j0, m0)" "(j, m') \<in> set ms"
    | "(i, m) \<in> set ms" "(j, m') = (j0, m0)"
    | "(i, m) = (j0, m0)" "(j, m') = (j0, m0)"
    using 2(4,5) by auto
  then show ?case
  proof cases
    case 1
    with 2 tl show ?thesis by simp
  next
    case 2
    with far [of j m'] show ?thesis by auto
  next
    case 3
    with far [of i m] show ?thesis by auto
  next
    case 4
    with 2(6) show ?thesis by simp
  qed
qed simp_all

lemma slice_append_front: "slice (xs @ ys) 0 (int (length xs) - 1) = xs"
  by (simp add: slice_def)

lemma slice_shift:
  "0 \<le> s \<Longrightarrow> slice (xs @ ys) (s + int (length xs)) (e + int (length xs)) = slice ys s e"
  by (simp add: slice_def nat_add_distrib)

lemma ranges_from_content:
  "ranges_from off ds ms \<Longrightarrow> (i, d) \<in> set ds \<Longrightarrow>
   \<exists>m s e. (i, m) \<in> set ms \<and> map_of m ''start_index'' = Some (PInt s) \<and>
     map_of m ''end_index'' = Some (PInt e) \<and> int off \<le> s \<and>
     slice (embedded emb ds) (s - int off) (e - int off) = map emb (chunks d)"
proof (induction off ds ms rule: ranges_from.induct)
  case (1 off)
  then show ?case by simp
next
  case (2 off i0 d0 ds j0 m0 ms)
  let ?n = "length (chunks d0)"
  show ?case
  proof (cases "(i, d) = (i0, d0)")
    case True
    have "slice (embedded emb ((i0, d0) # ds)) 0 (int ?n - 1) = map emb (chunks d0)"
      using slice_append_front [of "map emb (chunks d0)" "embedded emb ds"] by simp
    then have "(i, m0) \<in> set ((j0, m0) # ms) \<and>
        map_of m0 ''start_index'' = Some (PInt (int off)) \<and>
        map_of m0 ''end_index'' = Some (PInt (int off + int ?n - 1)) \<and> int off \<le> int off \<and>
        slice (embedded emb ((i0, d0) # ds)) (int off - int off) (int off + int ?n - 1 - int off) =
          map emb (chunks d)"
      using 2(2) True by simp
    then show ?thesis by blast
  next
    case False
    with 2(3) have "(i, d) \<in> set ds" by auto
    moreover have "ranges_from (off + ?n) ds ms" using 2(2) by simp
    ultimately obtain m s e where
      a: "(i, m) \<in> set ms" "map_of m ''start_index'' = Some (PInt s)"
        "map_of m ''end_index'' = Some (PInt e)" "int (off + ?n) \<le> s"
        "slice (embedded emb ds) (s - int (off + ?n)) (e - int (off + ?n)) = map emb (chunks d)"
      using 2(1) by blast
    have "slice (map emb (chunks d0) @ embedded emb ds)
        ((s - int (off + ?n)) + int (length (map emb (chunks d0))))
        ((e - int (off + ?n)) + int (length (map emb (chunks d0)))) =
        slice (embedded emb ds) (s - int (off + ?n)) (e - int (off + ?n))"
      using a(4) by (intro slice_shift) simp
    then have "slice (embedded emb ((i0, d0) # ds)) (s - int off) (e - int off) =
        map emb (chunks d)"
      using a(5) by (simp add: algebra_simps)
    then have "(i, m) \<in> set ((j0, m0) # ms) \<and> map_of m ''start_index'' = Some (PInt s) \<and>
        map_of m ''end_index'' = Some (PInt e) \<and> int off \<le> s \<and>
        slice (embedded emb ((i0, d0) # ds)) (s - int off) (e - int off) = map emb (chunks d)"
      using a by simp
    then show ?thesis by blast
  qed
qed simp_all

subsection \<open>A failed rebuild\<close>

text \<open>
  C2 (as the code has it). \<open>rebuild_index\<close> is not all-or-nothing. When it fails it
  returns \<open>False\<close>; the documents table is the one from before the call, and the
  metadata table lists the same ids in the same order, each with the dictionary object
  it had. Either nothing at all has changed (a document without metadata, found before
  the first assignment), or the index has been replaced by a fresh one that holds only
  the vectors of the active documents re-embedded before the failure.
\<close>

theorem rebuild_failure_keeps_documents:
  assumes "rebuild_index enc st = (False, st')"
  shows "documents st' = documents st \<and> metadata st' = metadata st \<and>
     map fst (meta_view st') = map fst (meta_view st) \<and>
     vector_dim st' = vector_dim st \<and> model_name st' = model_name st \<and>
     (st' = st \<or>
      (\<exists>act pre rest. active_docs st (documents st) = Inr act \<and>
         act = pre @ rest \<and> rest \<noteq> [] \<and>
         index st' =
           concat (map (\<lambda>(i, d, a). case enc (chunks d) of Some vs \<Rightarrow> vs | None \<Rightarrow> []) pre)))"
proof -
  note f = rebuild_index_failure [OF assms]
  then have "metadata st' = metadata st" by blast
  then have "map fst (meta_view st') = map fst (meta_view st)"
    by (simp add: meta_view_def case_prod_beta comp_def)
  with f show ?thesis by blast
qed

theorem rebuild_failure_keeps_documents_witness:
  "fst (rebuild_index enc_flaky ex_store) = False \<and>
   documents (snd (rebuild_index enc_flaky ex_store)) = documents ex_store \<and>
   metadata (snd (rebuild_index enc_flaky ex_store)) = metadata ex_store \<and>
   map fst (meta_view (snd (rebuild_index enc_flaky ex_store))) = map fst (meta_view ex_store)"
proof -
  have f: "fst (rebuild_index enc_flaky ex_store) = False"
    by code_simp
  then have h: "rebuild_index enc_flaky ex_store = (False, snd (rebuild_index enc_flaky ex_store))"
    by (metis prod.collapse)
  from rebuild_failure_keeps_documents [OF h] f show ?thesis by blast
qed

text \<open>
  C2 as stated fails: the embedder answers for \<open>d1\<close> and fails for \<open>d2\<close>; the call
  returns \<open>False\<close> and leaves an index of one vector where there were two.
\<close>

theorem rebuild_failure_changes_index:
  "enc_flaky [''bb''] = None \<and> fst (rebuild_index enc_flaky ex_store) = False \<and>
   index ex_store = [[5], [2]] \<and> index (snd (rebuild_index enc_flaky ex_store)) = [[5]] \<and>
   index (snd (rebuild_index enc_flaky ex_store)) \<noteq> index ex_store"
  by code_simp

subsection \<open>A successful rebuild\<close>

text \<open>
  C8 (as the code has it). \<open>rebuild_index\<close> does not chunk anything: it embeds the
  chunks cached in the documents table. Take any store in which no two documents share
  a metadata dictionary (\<open>heap_ok\<close>; that every id occurs once in the documents table
  is true of any Python dictionary), however it was built. A successful
  \<open>rebuild_index\<close> keeps exactly the documents that are not marked deleted, in catalog
  order and as they were (text and cached chunks); the new index is the embedding of
  these cached chunks, document by document and chunk by chunk; the new ranges are
  contiguous from position 0 in that order; no metadata entry carries a deletion mark;
  and a document that was marked deleted is gone: \<open>get_document\<close> returns \<open>None\<close> for
  it.
\<close>

theorem rebuild_reembeds_cached_chunks:
  assumes "distinct (map fst (documents st))" "heap_ok st" "agrees emb enc"
    and "rebuild_index enc st = (True, st')"
  shows "documents st' = filter (\<lambda>(i, d). \<not> is_deleted st i) (documents st) \<and>
     map fst (metadata st') = map fst (documents st') \<and>
     index st' = embedded emb (documents st') \<and>
     ranges_from 0 (documents st') (meta_view st') \<and>
     list_all (\<lambda>(i, m). map_of m ''deleted'' = None \<and> map_of m ''deleted_at'' = None)
       (meta_view st') \<and>
     (\<forall>i. is_deleted st i \<longrightarrow> get_document st' i = None)"
proof -
  note s = rebuild_index_success [OF assms(3,1,2,4)]
  have gd: "\<forall>i. is_deleted st i \<longrightarrow> get_document st' i = None"
    by (simp add: get_document_def s(1) map_of_filter_keys)
  from s(1-5) gd show ?thesis by blast
qed

theorem rebuild_reembeds_cached_chunks_witness:
  "distinct (map fst (documents
     (run (empty_store 1 ''m'') (ex_calls @ [(ex_enc, ''t2'', DeleteDocument ''d1'')])))) \<and>
   heap_ok (run (empty_store 1 ''m'') (ex_calls @ [(ex_enc, ''t2'', DeleteDocument ''d1'')])) \<and>
   agrees ex_emb ex_enc \<and>
   fst (rebuild_index ex_enc
     (run (empty_store 1 ''m'') (ex_calls @ [(ex_enc, ''t2'', DeleteDocument ''d1'')]))) = True \<and>
   documents (snd (rebuild_index ex_enc
     (run (empty_store 1 ''m'') (ex_calls @ [(ex_enc, ''t2'', DeleteDocument ''d1'')])))) =
     [(''d2'', ex_doc ''bb'')] \<and>
   index (snd (rebuild_index ex_enc
     (run (empty_store 1 ''m'') (ex_calls @ [(ex_enc, ''t2'', DeleteDocument ''d1'')])))) =
     embedded ex_emb [(''d2'', ex_doc ''bb'')]"
proof -
  let ?st = "run (empty_store 1 ''m'') (ex_calls @ [(ex_enc, ''t2'', DeleteDocument ''d1'')])"
  have d0: "distinct (map fst (documents ?st))" by code_simp
  have h0: "heap_ok ?st" by code_simp
  have a: "agrees ex_emb ex_enc" by (simp add: agrees_def ex_enc_def)
  have f: "fst (rebuild_index ex_enc ?st) = True" by code_simp
  then have h: "rebuild_index ex_enc ?st = (True, snd (rebuild_index ex_enc ?st))"
    by (metis prod.collapse)
  have d: "filter (\<lambda>(i, d). \<not> is_deleted ?st i) (documents ?st) = [(''d2'', ex_doc ''bb'')]"
    by code_simp
  from rebuild_reembeds_cached_chunks [OF d0 h0 a h]
  have "documents (snd (rebuild_index ex_enc ?st)) =
      filter (\<lambda>(i, d). \<not> is_deleted ?st i) (documents ?st)"
    and "index (snd (rebuild_index ex_enc ?st)) =
      embedded ex_emb (documents (snd (rebuild_index ex_enc ?st)))"
    by blast+
  with d d0 h0 a f show ?thesis by simp
qed

text \<open>
  C8 as stated fails on a store whose cached chunks are not the chunker's output on
  the stored text: the rebuild succeeds, keeps the cached chunk and embeds it, where
  chunking the normalised stored text gives another chunk with another vector.
\<close>

theorem rebuild_keeps_stale_chunks:
  "fst (rebuild_index ex_enc stale_store) = True \<and>
   map (\<lambda>(i, d). (i, doc_text d, chunks d)) (documents (snd (rebuild_index ex_enc stale_store))) =
     [(''d1'', ''hello world'', [''stale''])] \<and>
   split_text (preprocess_text ''hello world'') 512 50 = [''hello world''] \<and>
   index (snd (rebuild_index ex_enc stale_store)) = [ex_emb ''stale''] \<and>
   ex_emb ''stale'' \<noteq> ex_emb ''hello world''"
  by code_simp

subsection \<open>The range invariant\<close>

text \<open>
  C4 (as the code has it). Take any sequence of \<open>add_document\<close>, \<open>delete_document\<close> and
  \<open>rebuild_index\<close> calls from the empty store in which every embedder call either
  fails or returns the vectors of one embedding function, in which every
  \<open>rebuild_index\<close> call succeeds, and in which no \<open>add_document\<close> call is passed a
  dictionary object that an earlier call stored. Then the ranges recorded in the
  metadata are pairwise disjoint, their union is exactly \<open>0 ..< ntotal\<close>, and the range
  of every document, live or tombstoned, holds that document's chunk embeddings in
  chunk order.
\<close>

theorem ranges_after_successful_operations:
  assumes "list_all (\<lambda>c. agrees emb (fst c)) calls"
    and "rebuilds_succeed (empty_store vd name) calls"
    and "list_all own_dict calls"
    and "st = run (empty_store vd name) calls"
  shows "(\<forall>(i, m)\<in>set (meta_view st). \<forall>(j, m')\<in>set (meta_view st).
            i \<noteq> j \<longrightarrow> range_of m \<inter> range_of m' = {}) \<and>
     (\<Union>(i, m)\<in>set (meta_view st). range_of m) = {0 ..< int (length (index st))} \<and>
     (\<forall>(i, d)\<in>set (documents st).
        \<exists>m s e. map_of (meta_view st) i = Some m \<and>
          map_of m ''start_index'' = Some (PInt s) \<and> map_of m ''end_index'' = Some (PInt e) \<and>
          slice (index st) s e = map emb (chunks d))"
proof -
  from run_inv [OF assms(1,2,3) empty_store_ok] assms(4)
  have c: "catalog_ok st" and l: "layout_ok emb st" by simp_all
  have r: "ranges_from 0 (documents st) (meta_view st)"
    and ix: "index st = embedded emb (documents st)"
    using l by (simp_all add: layout_ok_def)
  have "map fst (meta_view st) = map fst (metadata st)"
    by (simp add: meta_view_def case_prod_beta comp_def)
  then have dist: "distinct (map fst (meta_view st))"
    using c by (simp add: catalog_ok_def)
  have p1: "\<forall>(i, m)\<in>set (meta_view st). \<forall>(j, m')\<in>set (meta_view st).
            i \<noteq> j \<longrightarrow> range_of m \<inter> range_of m' = {}"
    using ranges_from_disjoint [OF r dist] by blast
  have p2: "(\<Union>(i, m)\<in>set (meta_view st). range_of m) = {0 ..< int (length (index st))}"
    using ranges_from_union [OF r, of emb] ix by simp
  have p3: "\<exists>m s e. map_of (meta_view st) i = Some m \<and>
          map_of m ''start_index'' = Some (PInt s) \<and> map_of m ''end_index'' = Some (PInt e) \<and>
          slice (index st) s e = map emb (chunks d)"
    if "(i, d) \<in> set (documents st)" for i d
  proof -
    from ranges_from_content [OF r that, of emb] obtain m s e where
      a: "(i, m) \<in> set (meta_view st)" "map_of m ''start_index'' = Some (PInt s)"
        "map_of m ''end_index'' = Some (PInt e)"
        "slice (embedded emb (documents st)) (s - int 0) (e - int 0) = map emb (chunks d)"
      by blast
    have "map_of (meta_view st) i = Some m"
      using dist a(1) by (rule map_of_is_SomeI)
    with a ix show ?thesis by auto
  qed
  from p1 p2 p3 show ?thesis by blast
qed

theorem ranges_after_successful_operations_witness:
  "list_all (\<lambda>c. agrees ex_emb (fst c))
     (ex_calls @ [(ex_enc, ''t2'', DeleteDocument ''d1''), (ex_enc, ''t3'', RebuildIndex)]) \<and>
   rebuilds_succeed (empty_store 1 ''m'')
     (ex_calls @ [(ex_enc, ''t2'', DeleteDocument ''d1''), (ex_enc, ''t3'', RebuildIndex)]) \<and>
   list_all own_dict
     (ex_calls @ [(ex_enc, ''t2'', DeleteDocument ''d1''), (ex_enc, ''t3'', RebuildIndex)]) \<and>
   (\<Union>(i, m)\<in>set (meta_view (run (empty_store 1 ''m'')
       (ex_calls @ [(ex_enc, ''t2'', DeleteDocument ''d1''), (ex_enc, ''t3'', RebuildIndex)]))).
      range_of m) =
     {0 ..< int (length (index (run (empty_store 1 ''m'')
       (ex_calls @ [(ex_enc, ''t2'', DeleteDocument ''d1''), (ex_enc, ''t3'', RebuildIndex)]))))}"
proof -
  let ?calls = "ex_calls @ [(ex_enc, ''t2'', DeleteDocument ''d1''), (ex_enc, ''t3'', RebuildIndex)]"
  have a: "agrees ex_emb ex_enc" by (simp add: agrees_def ex_enc_def)
  then have h1: "list_all (\<lambda>c. agrees ex_emb (fst c)) ?calls"
    by (simp add: ex_calls_def)
  have h2: "rebuilds_succeed (empty_store 1 ''m'') ?calls" by code_simp
  have h3: "list_all own_dict ?calls" by (simp add: ex_calls_def)
  from ranges_after_successful_operations [OF h1 h2 h3 refl] h1 h2 h3 show ?thesis by blast
qed

text \<open>
  C4 as stated fails after a failed rebuild: the index holds one vector, and the
  metadata of \<open>d2\<close> still record position 1.
\<close>

theorem ranges_break_after_failed_rebuild:
  "fst (rebuild_index enc_flaky (run (empty_store 1 ''m'') ex_calls)) = False \<and>
   1 \<in> range_of (meta_dict (run (empty_store 1 ''m'')
          (ex_calls @ [(enc_flaky, ''t2'', RebuildIndex)])) ''d2'') \<and>
   length (index (run (empty_store 1 ''m'') (ex_calls @ [(enc_flaky, ''t2'', RebuildIndex)]))) = 1"
  by code_simp

text \<open>
  It also fails when one dictionary is passed to two \<open>add_document\<close> calls: the store
  holds the same object for both ids, the second call overwrites the range of the
  first, and both ids record position 1 while the index holds two vectors.
\<close>

theorem ranges_break_with_shared_dictionary:
  "map (\<lambda>(i, m). (i, map_of m ''start_index'', map_of m ''end_index''))
     (meta_view (run (empty_store 1 ''m'') shared_calls)) =
     [(''d1'', Some (PInt 1), Some (PInt 1)), (''d2'', Some (PInt 1), Some (PInt 1))] \<and>
   length (index (run (empty_store 1 ''m'') shared_calls)) = 2 \<and>
   range_of (meta_dict (run (empty_store 1 ''m'') shared_calls) ''d1'') \<inter>
     range_of (meta_dict (run (empty_store 1 ''m'') shared_calls) ''d2'') = {1}"
  by code_simp

end
